theory Spec2Isabelle
  imports Main "HOL-Library.Word"
begin

unbundle bit_operations_syntax

section \<open>Data model\<close>

text \<open>
  A shallow embedding of \<^verbatim>\<open>raspi_iccmax_FF.py\<close>. The I2C bus is the only state of the
  program. It is modelled by the chronological list of everything the program has done
  so far (bus transactions with their outcome, printed lines, sleeps) together with a
  transport behaviour: a function that, given this history and the next transaction,
  says whether the transaction fails (\<open>None\<close>) or succeeds (\<open>Some\<close> bytes). Every
  deterministic device and every pattern of bus faults is such a function.
\<close>

type_synonym byte = "8 word"

datatype call =
    WriteTx int "byte list"   \<comment> \<open>\<^verbatim>\<open>bus.i2c_rdwr(i2c_msg.write(addr7, data))\<close>\<close>
  | ReadTx int int nat        \<comment> \<open>\<^verbatim>\<open>bus.i2c_rdwr(write(addr7, [reg]), read(addr7, nbytes))\<close>\<close>

text \<open>The printed lines, one constructor per \<^verbatim>\<open>print\<close> text of the source; the
  values that the source formats into the line are the arguments.\<close>

datatype msg =
    MsgTry int                                 \<comment> \<open>\<^verbatim>\<open> try #{tries}\<close>\<close>
  | MsgRetry int                               \<comment> \<open>\<^verbatim>\<open> retry#{tries}\<close>\<close>
  | MsgReadBlock int int nat "byte list option"
       \<comment> \<open>\<^verbatim>\<open>ReadBlock( PagePP,cmdCC,n)\<close> followed by the bytes, or by \<^verbatim>\<open>Error\<close>\<close>
  | MsgReadBack int int nat "byte list option"
       \<comment> \<open>the same line as printed by the read-back after the value write (lines 201, 244)\<close>
  | MsgWriteBlock int "byte list" bool
       \<comment> \<open>\<^verbatim>\<open>WriteBlock( PagePP,cmd..)=\<close> followed by \<^verbatim>\<open>OK\<close> or \<^verbatim>\<open>Error\<close>\<close>
  | MsgDetectionError                          \<comment> \<open>\<^verbatim>\<open>Device detection error\<close>\<close>
  | MsgPxeNotFound                             \<comment> \<open>\<^verbatim>\<open>PXE1610C not found\<close>\<close>
  | MsgPxeFound                                \<comment> \<open>\<^verbatim>\<open>PXE1610C found: starting modd\<close>\<close>
  | MsgSmbPassword bool                        \<comment> \<open>\<^verbatim>\<open>set smb_password=\<close> OK / Error\<close>
  | MsgIccMax "byte list"                      \<comment> \<open>\<^verbatim>\<open>ICC_MAX=XXXX\<close>\<close>
  | MsgIccSkipped                              \<comment> \<open>\<^verbatim>\<open> ICC_MAX is 255A - modification skipped.\<close>\<close>
  | MsgReadIccError                            \<comment> \<open>\<^verbatim>\<open>Read ICC_MAX=Error\<close>\<close>
  | MsgOldRemaining int                        \<comment> \<open>\<^verbatim>\<open> old remaining attempts= XX\<close>\<close>
  | MsgReadAttemptsError                       \<comment> \<open>\<^verbatim>\<open>read attempts=Error\<close>\<close>
  | MsgWriteIccMax bool                        \<comment> \<open>\<^verbatim>\<open>Write ICC_MAX=\<close> OK / Error\<close>
  | MsgSetNvmPassword bool                     \<comment> \<open>\<^verbatim>\<open>set nvm_password=\<close> OK / Error\<close>
  | MsgUpload bool                             \<comment> \<open>\<^verbatim>\<open>upload_cfg_send_byte=\<close> OK / Error\<close>
  | MsgClearNvmPassword bool                   \<comment> \<open>\<^verbatim>\<open>clear nvm_password=\<close> OK / Error\<close>
  | MsgNewRemaining int                        \<comment> \<open>\<^verbatim>\<open> new remaining attempts= XX\<close>\<close>
  | MsgPxeSuccessful                           \<comment> \<open>\<^verbatim>\<open>PXE1610C modd successful\<close>\<close>
  | MsgPxeError                                \<comment> \<open>\<^verbatim>\<open>PXE1610C modd error\<close>\<close>
  | MsgMpFound                                 \<comment> \<open>\<^verbatim>\<open>MP2955A found: starting modd\<close>\<close>
  | MsgIccAlready                              \<comment> \<open>\<^verbatim>\<open> ICC_MAX already 255A - modification skipped.\<close>\<close>
  | MsgMpSuccessful                            \<comment> \<open>\<^verbatim>\<open>MP2955A modd successful\<close>\<close>
  | MsgMpError                                 \<comment> \<open>\<^verbatim>\<open>MP2955A modd error\<close>\<close>
  | MsgTpsFound byte                           \<comment> \<open>\<^verbatim>\<open>TPS53679 found: starting modd\<close> / \<^verbatim>\<open>TPS53678 ...\<close>\<close>
  | MsgTpsNotFound                             \<comment> \<open>\<^verbatim>\<open>TPS53679 not found\<close>\<close>
  | MsgTpsSuccessful                           \<comment> \<open>\<^verbatim>\<open>TPS53678/TPS53679 modd successful\<close>\<close>
  | MsgTpsError                                \<comment> \<open>\<^verbatim>\<open>TPS53678/TPS53679 modd error\<close>\<close>
  | MsgScanning int                            \<comment> \<open>\<^verbatim>\<open>scanning at addr: XX\<close>\<close>
  | MsgFoundDevice int                         \<comment> \<open>\<^verbatim>\<open> found device at addr: XX\<close>\<close>
  | MsgProbablyISL69127 int                    \<comment> \<open>\<^verbatim>\<open>probably ISL69127 found at addr: XX\<close>\<close>
  | MsgProbablyTPS53679 int                    \<comment> \<open>\<^verbatim>\<open>probably TPS53679 found at addr: XX\<close>\<close>
  | MsgProbablyTPS53678 int                    \<comment> \<open>\<^verbatim>\<open>probably TPS53678 found at addr: XX\<close>\<close>
  | MsgProbablyMP2955A int                     \<comment> \<open>\<^verbatim>\<open>probably MP2955A found at addr: XX\<close>\<close>
  | MsgPrimarion int                           \<comment> \<open>\<^verbatim>\<open>Primarion family controller found at addr: XX\<close>\<close>
  | MsgPxeFoundAt int                          \<comment> \<open>\<^verbatim>\<open>PXE1610C found at addr: XX\<close>\<close>
  | MsgRemaining int                           \<comment> \<open>\<^verbatim>\<open> remaining attempts= XX\<close>\<close>
  | MsgIccMaxScan byte                         \<comment> \<open>\<^verbatim>\<open> ICC_MAX= XX\<close>\<close>

datatype event =
    Tx call "byte list option"   \<comment> \<open>a bus transaction and its outcome\<close>
  | Print msg
  | Sleep nat                    \<comment> \<open>\<^verbatim>\<open>time.sleep(n)\<close>\<close>

type_synonym trace = "event list"
type_synonym transport = "trace \<Rightarrow> call \<Rightarrow> byte list option"

datatype exn = ValueError

datatype 'a res = Ret 'a | Raised exn

type_synonym 'a prog = "trace \<Rightarrow> 'a res \<times> trace"

definition RETRY_RW :: int where
  "RETRY_RW = 4"

definition RETRY_SCAN :: int where
  "RETRY_SCAN = 2"

section \<open>Sequencing with exceptions\<close>

definition returnE :: "'a \<Rightarrow> 'a prog" where
  "returnE x s = (Ret x, s)"

definition raiseE :: "exn \<Rightarrow> 'a prog" where
  "raiseE e s = (Raised e, s)"

definition bindE :: "'a prog \<Rightarrow> ('a \<Rightarrow> 'b prog) \<Rightarrow> 'b prog" where
  "bindE m f s = (case m s of (Raised e, s') \<Rightarrow> (Raised e, s') | (Ret x, s') \<Rightarrow> f x s')"

definition print :: "msg \<Rightarrow> unit prog" where
  "print m s = (Ret (), s @ [Print m])"

definition sleep :: "nat \<Rightarrow> unit prog" where
  "sleep n s = (Ret (), s @ [Sleep n])"

section \<open>Basic I2C operations\<close>

text \<open>\<^verbatim>\<open>bytes([...])\<close>: raises ValueError unless every element is in \<open>range(256)\<close>.\<close>

definition py_bytes :: "int list \<Rightarrow> byte list res" where
  "py_bytes xs = (if list_all (\<lambda>x. 0 \<le> x \<and> x \<le> 255) xs
                  then Ret (map word_of_int xs) else Raised ValueError)"

text \<open>The buffer of \<^verbatim>\<open>i2c_msg.read(addr7, nbytes)\<close> holds exactly \<open>nbytes\<close> bytes,
  zero-initialised, whatever the device sends.\<close>

definition fit :: "nat \<Rightarrow> byte list \<Rightarrow> byte list" where
  "fit n bs = take n (bs @ replicate n 0)"

text \<open>\<^verbatim>\<open>write_block\<close>: every exception of the transaction is caught and becomes \<open>-1\<close>.\<close>

definition write_block :: "transport \<Rightarrow> int \<Rightarrow> byte list \<Rightarrow> trace \<Rightarrow> int \<times> trace" where
  "write_block tr addr7 data s =
     (case tr s (WriteTx addr7 data) of
        Some _ \<Rightarrow> (0, s @ [Tx (WriteTx addr7 data) (Some [])])
      | None \<Rightarrow> (-1, s @ [Tx (WriteTx addr7 data) None]))"

text \<open>\<^verbatim>\<open>read_block\<close>: \<^verbatim>\<open>bytes([reg])\<close> is evaluated inside the \<^verbatim>\<open>try\<close>, so a register
  number outside \<open>0..255\<close> gives \<open>-1\<close> without any transaction.\<close>

definition read_block :: "transport \<Rightarrow> int \<Rightarrow> int \<Rightarrow> nat \<Rightarrow> trace \<Rightarrow> (int \<times> byte list) \<times> trace" where
  "read_block tr addr7 reg nbytes s =
     (if 0 \<le> reg \<and> reg \<le> 255 then
        (case tr s (ReadTx addr7 reg nbytes) of
           Some bs \<Rightarrow> ((0, fit nbytes bs), s @ [Tx (ReadTx addr7 reg nbytes) (Some (fit nbytes bs))])
         | None \<Rightarrow> ((-1, []), s @ [Tx (ReadTx addr7 reg nbytes) None]))
      else ((-1, []), s))"

text \<open>One pass through the body of the retry loop of \<^verbatim>\<open>vrm_write_block\<close> (after
  \<^verbatim>\<open>tries += 1\<close>): the page select \<^verbatim>\<open>[0x00, page]\<close> when \<open>page >= 0\<close>, then the
  payload when the page select returned 0. The result is the final \<open>rc\<close>.
  \<^verbatim>\<open>bytes([0x00, page])\<close> is evaluated in the caller's frame, outside any \<^verbatim>\<open>try\<close>.\<close>

definition write_attempt :: "transport \<Rightarrow> int \<Rightarrow> int \<Rightarrow> byte list \<Rightarrow> int prog" where
  "write_attempt tr addr7 page payload s =
     (if page \<ge> 0 then
        (case py_bytes [0x00, page] of
           Raised e \<Rightarrow> (Raised e, s)
         | Ret sel \<Rightarrow>
            (case write_block tr addr7 sel s of (rc, s1) \<Rightarrow>
               if rc = 0 then (case write_block tr addr7 payload s1 of (rc', s2) \<Rightarrow> (Ret rc', s2))
               else (Ret rc, s1)))
      else (case write_block tr addr7 payload s of (rc', s2) \<Rightarrow> (Ret rc', s2)))"

function vrm_write_loop :: "transport \<Rightarrow> int \<Rightarrow> int \<Rightarrow> byte list \<Rightarrow> int \<Rightarrow> int prog" where
  "vrm_write_loop tr addr7 page payload tries s =
     (if tries < RETRY_RW then
        (case write_attempt tr addr7 page payload
                (if tries > 0 then s @ [Print (MsgTry tries)] else s) of
           (Raised e, s') \<Rightarrow> (Raised e, s')
         | (Ret rc, s') \<Rightarrow>
             if rc = 0 then (Ret 0, s')
             else vrm_write_loop tr addr7 page payload (tries + 1) s')
      else (Ret (-1), s))"
  by pat_completeness auto
termination
  by (relation "measure (\<lambda>(tr, addr7, page, payload, tries, s). nat (RETRY_RW - tries))") auto

definition vrm_write_block :: "transport \<Rightarrow> int \<Rightarrow> int \<Rightarrow> byte list \<Rightarrow> int prog" where
  "vrm_write_block tr addr7 page payload = vrm_write_loop tr addr7 page payload 0"

text \<open>The loop body shared by \<^verbatim>\<open>vrm_read_block\<close> and \<^verbatim>\<open>scan_read_block\<close>, which are
  the same code up to the retry constant and the retry print. \<open>None\<close> stands for
  "no return in this pass".\<close>

definition read_attempt :: "transport \<Rightarrow> int \<Rightarrow> int \<Rightarrow> int \<Rightarrow> nat \<Rightarrow> (byte list option) prog" where
  "read_attempt tr addr7 page reg nbytes s =
     (if page \<ge> 0 then
        (case py_bytes [0x00, page] of
           Raised e \<Rightarrow> (Raised e, s)
         | Ret sel \<Rightarrow>
            (case write_block tr addr7 sel s of (rc, s1) \<Rightarrow>
               if rc = 0 then
                 (case read_block tr addr7 reg nbytes s1 of ((rc', data), s2) \<Rightarrow>
                    (Ret (if rc' = 0 then Some data else None), s2))
               else (Ret None, s1)))
      else (case read_block tr addr7 reg nbytes s of ((rc', data), s2) \<Rightarrow>
              (Ret (if rc' = 0 then Some data else None), s2)))"

function vrm_read_loop :: "transport \<Rightarrow> int \<Rightarrow> int \<Rightarrow> int \<Rightarrow> nat \<Rightarrow> int \<Rightarrow> (int \<times> byte list) prog" where
  "vrm_read_loop tr addr7 page reg nbytes tries s =
     (if tries < RETRY_RW then
        (case read_attempt tr addr7 page reg nbytes
                (if tries > 0 then s @ [Print (MsgRetry tries)] else s) of
           (Raised e, s') \<Rightarrow> (Raised e, s')
         | (Ret (Some data), s') \<Rightarrow> (Ret (0, data), s')
         | (Ret None, s') \<Rightarrow> vrm_read_loop tr addr7 page reg nbytes (tries + 1) s')
      else (Ret (-1, []), s))"
  by pat_completeness auto
termination
  by (relation "measure (\<lambda>(tr, addr7, page, reg, nbytes, tries, s). nat (RETRY_RW - tries))") auto

definition vrm_read_block :: "transport \<Rightarrow> int \<Rightarrow> int \<Rightarrow> int \<Rightarrow> nat \<Rightarrow> (int \<times> byte list) prog" where
  "vrm_read_block tr addr7 page reg nbytes = vrm_read_loop tr addr7 page reg nbytes 0"

function scan_read_loop :: "transport \<Rightarrow> int \<Rightarrow> int \<Rightarrow> int \<Rightarrow> nat \<Rightarrow> int \<Rightarrow> (int \<times> byte list) prog" where
  "scan_read_loop tr addr7 page reg nbytes tries s =
     (if tries < RETRY_SCAN then
        (case read_attempt tr addr7 page reg nbytes s of
           (Raised e, s') \<Rightarrow> (Raised e, s')
         | (Ret (Some data), s') \<Rightarrow> (Ret (0, data), s')
         | (Ret None, s') \<Rightarrow> scan_read_loop tr addr7 page reg nbytes (tries + 1) s')
      else (Ret (-1, []), s))"
  by pat_completeness auto
termination
  by (relation "measure (\<lambda>(tr, addr7, page, reg, nbytes, tries, s). nat (RETRY_SCAN - tries))") auto

definition scan_read_block :: "transport \<Rightarrow> int \<Rightarrow> int \<Rightarrow> int \<Rightarrow> nat \<Rightarrow> (int \<times> byte list) prog" where
  "scan_read_block tr addr7 page reg nbytes = scan_read_loop tr addr7 page reg nbytes 0"

text \<open>The remaining-attempts counter as the source decodes it, in three places
  (\<^verbatim>\<open>tmp = (att[1] << 2) & 0xFF; remain = (tmp | (att[0] >> 6)) & 0xFF\<close>); indexing a
  \<^verbatim>\<open>bytes\<close> object gives an unbounded Python integer.\<close>

definition remain_of :: "byte list \<Rightarrow> int" where
  "remain_of att =
     (let tmp = (push_bit 2 (uint (att ! 1))) AND 0xFF
      in (tmp OR (drop_bit 6 (uint (att ! 0)))) AND 0xFF)"

section \<open>Device procedures\<close>

text \<open>\<^verbatim>\<open>pxe1610_set_icc_max\<close>, lines 138 to 170: value write, NVM password, upload
  trigger, password clear, second read of the attempts counter. The return code of the
  upload trigger is printed and then overwritten by the password clear.\<close>

definition pxe1610_commit :: "transport \<Rightarrow> int \<Rightarrow> int prog" where
  "pxe1610_commit tr addr7 =
     bindE (vrm_write_block tr addr7 0x20 [0x73, 0xFF, 0x00]) (\<lambda>rc.
     bindE (print (MsgWriteIccMax (rc = 0))) (\<lambda>_.
     if rc \<noteq> 0 then returnE (-1) else
     bindE (vrm_write_block tr addr7 0x3F [0x29, 0xD7, 0xEF]) (\<lambda>rc.
     bindE (print (MsgSetNvmPassword (rc = 0))) (\<lambda>_.
     if rc \<noteq> 0 then returnE (-1) else
     bindE (vrm_write_block tr addr7 0x3F [0x34]) (\<lambda>rc.
     bindE (print (MsgUpload (rc = 0))) (\<lambda>_.
     bindE (sleep 1) (\<lambda>_.
     bindE (vrm_write_block tr addr7 0x3F [0x29, 0x00, 0x00]) (\<lambda>rc.
     bindE (print (MsgClearNvmPassword (rc = 0))) (\<lambda>_.
     if rc \<noteq> 0 then returnE (-1) else
     bindE (vrm_read_block tr addr7 0x50 0x82 2) (\<lambda>(rc, att2).
     bindE (if rc = 0 then print (MsgNewRemaining (remain_of att2)) else returnE ()) (\<lambda>_.
     if rc = 0 then bindE (print MsgPxeSuccessful) (\<lambda>_. returnE 0)
     else bindE (print MsgPxeError) (\<lambda>_. returnE (-1)))))))))))))"

text \<open>Lines 113 to 136: SMB password, read of ICC_MAX (skip when byte 0 is 0xFF), first
  read of the attempts counter.\<close>

definition pxe1610_modify :: "transport \<Rightarrow> int \<Rightarrow> int prog" where
  "pxe1610_modify tr addr7 =
     bindE (vrm_write_block tr addr7 0x3F [0x27, 0x7C, 0xB3]) (\<lambda>rc.
     bindE (print (MsgSmbPassword (rc = 0))) (\<lambda>_.
     if rc \<noteq> 0 then returnE (-1) else
     bindE (vrm_read_block tr addr7 0x20 0x73 2) (\<lambda>(rc, icc).
     if rc = 0 then
       bindE (print (MsgIccMax icc)) (\<lambda>_.
       if icc ! 0 = 0xFF then bindE (print MsgIccSkipped) (\<lambda>_. returnE 0)
       else
         bindE (vrm_read_block tr addr7 0x50 0x82 2) (\<lambda>(rc, att).
         bindE (if rc = 0 then print (MsgOldRemaining (remain_of att))
                else print MsgReadAttemptsError) (\<lambda>_.
         pxe1610_commit tr addr7)))
     else bindE (print MsgReadIccError) (\<lambda>_. returnE (-1)))))"

text \<open>Lines 88 to 111: the three identification reads. The first print formats
  \<^verbatim>\<open>'??' if rc else b00_fd[0]\<close> with \<^verbatim>\<open>:02X\<close>; when \<open>rc\<close> is not 0 the value is the
  string \<^verbatim>\<open>'??'\<close>, for which the format code \<^verbatim>\<open>X\<close> raises ValueError before anything
  is printed.\<close>

definition pxe1610_set_icc_max :: "transport \<Rightarrow> int \<Rightarrow> int prog" where
  "pxe1610_set_icc_max tr addr7 =
     bindE (vrm_read_block tr addr7 0x00 0xFD 1) (\<lambda>(rc, b00_fd).
     bindE (if rc \<noteq> 0 then raiseE ValueError
            else print (MsgReadBlock 0x00 0xFD 1 (Some b00_fd))) (\<lambda>_.
     if rc = 0 \<and> b00_fd ! 0 = 0xB3 then
       bindE (vrm_read_block tr addr7 0x4F 0x1A 1) (\<lambda>(rc, b4f_1a).
       bindE (print (MsgReadBlock 0x4F 0x1A 1 (if rc = 0 then Some b4f_1a else None))) (\<lambda>_.
       if rc = 0 \<and> b4f_1a ! 0 = 0x00 then
         bindE (vrm_read_block tr addr7 0x4F 0x32 2) (\<lambda>(rc, b4f_32).
         bindE (print (MsgReadBlock 0x4F 0x32 2 (if rc = 0 then Some b4f_32 else None))) (\<lambda>_.
         if rc = 0 \<and> b4f_32 ! 0 = 0x15 \<and> b4f_32 ! 1 = 0x04 then
           bindE (print MsgPxeFound) (\<lambda>_. pxe1610_modify tr addr7)
         else bindE (print MsgPxeNotFound) (\<lambda>_. returnE (-1))))
       else bindE (print MsgPxeNotFound) (\<lambda>_. returnE (-1))))
     else bindE (print MsgDetectionError) (\<lambda>_. returnE (-1))))"

definition mp2955a_set_icc_max :: "transport \<Rightarrow> int \<Rightarrow> int prog" where
  "mp2955a_set_icc_max tr addr7 =
     bindE (vrm_read_block tr addr7 0x00 0xBF 2) (\<lambda>(rc, bf).
     bindE (print (MsgReadBlock 0x00 0xBF 2 (if rc = 0 then Some bf else None))) (\<lambda>_.
     if rc \<noteq> 0 then bindE (print MsgDetectionError) (\<lambda>_. returnE (-1)) else
     if \<not> (bf ! 0 = 0x55 \<and> bf ! 1 = 0x25) then bindE (print MsgPxeNotFound) (\<lambda>_. returnE (-1)) else
     bindE (print MsgMpFound) (\<lambda>_.
     bindE (vrm_read_block tr addr7 0x00 0xEF 1) (\<lambda>(rc, v).
     bindE (print (MsgReadBlock 0x00 0xEF 1 (if rc = 0 then Some v else None))) (\<lambda>_.
     if rc \<noteq> 0 then returnE (-1) else
     if v ! 0 = 0xFF then bindE (print MsgIccAlready) (\<lambda>_. returnE 0) else
     bindE (vrm_write_block tr addr7 0x00 [0xEF, 0xFF]) (\<lambda>rc.
     bindE (print (MsgWriteBlock 0x00 [0xEF, 0xFF] (rc = 0))) (\<lambda>_.
     if rc \<noteq> 0 then returnE (-1) else
     bindE (vrm_read_block tr addr7 0x00 0xEF 1) (\<lambda>(rc, v2).
     bindE (print (MsgReadBack 0x00 0xEF 1 (if rc = 0 then Some v2 else None))) (\<lambda>_.
     bindE (vrm_write_block tr addr7 0x00 [0x15]) (\<lambda>rc.
     bindE (print (MsgWriteBlock 0x00 [0x15] (rc = 0))) (\<lambda>_.
     bindE (sleep 1) (\<lambda>_.
     if rc = 0 then bindE (print MsgMpSuccessful) (\<lambda>_. returnE 0)
     else bindE (print MsgMpError) (\<lambda>_. returnE (-1))))))))))))))"

definition tps53679_set_icc_max :: "transport \<Rightarrow> int \<Rightarrow> int prog" where
  "tps53679_set_icc_max tr addr7 =
     bindE (vrm_read_block tr addr7 0x00 0xAD 2) (\<lambda>(rc, ad).
     bindE (print (MsgReadBlock 0x00 0xAD 2 (if rc = 0 then Some ad else None))) (\<lambda>_.
     if rc \<noteq> 0 then bindE (print MsgDetectionError) (\<lambda>_. returnE (-1)) else
     if \<not> (ad ! 0 = 0x01 \<and> (ad ! 1 = 0x79 \<or> ad ! 1 = 0x78))
     then bindE (print MsgTpsNotFound) (\<lambda>_. returnE (-1)) else
     bindE (print (MsgTpsFound (ad ! 1))) (\<lambda>_.
     bindE (vrm_read_block tr addr7 0x00 0xDA 2) (\<lambda>(rc, da).
     bindE (print (MsgReadBlock 0x00 0xDA 2 (if rc = 0 then Some da else None))) (\<lambda>_.
     if rc \<noteq> 0 then returnE (-1) else
     if da ! 0 = 0xFF then bindE (print MsgIccAlready) (\<lambda>_. returnE 0) else
     bindE (vrm_write_block tr addr7 0x00 [0xDA, 0xFF, 0x00]) (\<lambda>rc.
     bindE (print (MsgWriteBlock 0x00 [0xDA, 0xFF, 0x00] (rc = 0))) (\<lambda>_.
     if rc \<noteq> 0 then returnE (-1) else
     bindE (vrm_read_block tr addr7 0x00 0xDA 2) (\<lambda>(rc, da2).
     bindE (print (MsgReadBack 0x00 0xDA 2 (if rc = 0 then Some da2 else None))) (\<lambda>_.
     bindE (vrm_write_block tr addr7 0x00 [0x11]) (\<lambda>rc.
     bindE (print (MsgWriteBlock 0x00 [0x11] (rc = 0))) (\<lambda>_.
     bindE (sleep 1) (\<lambda>_.
     if rc = 0 then bindE (print MsgTpsSuccessful) (\<lambda>_. returnE 0)
     else bindE (print MsgTpsError) (\<lambda>_. returnE (-1))))))))))))))"

section \<open>Bus scanner\<close>

text \<open>The PXE1610C branch of the scan loop body, lines 301 to 317.\<close>

definition scan_primarion :: "transport \<Rightarrow> int \<Rightarrow> unit prog" where
  "scan_primarion tr a =
     bindE (scan_read_block tr a 0x00 0xFD 1) (\<lambda>(rc, fd).
     if rc = 0 \<and> fd ! 0 = 0xB3 then
       bindE (scan_read_block tr a 0x4F 0x1A 1) (\<lambda>(rc, ia).
       if rc = 0 \<and> ia ! 0 = 0x00 then
         bindE (print (MsgPrimarion a)) (\<lambda>_.
         bindE (scan_read_block tr a 0x4F 0x32 2) (\<lambda>(rc, x32).
         if rc = 0 \<and> x32 ! 0 = 0x15 \<and> x32 ! 1 = 0x04 then
           bindE (print (MsgPxeFoundAt a)) (\<lambda>_.
           bindE (scan_read_block tr a 0x50 0x82 2) (\<lambda>(rc, x82).
           bindE (if rc = 0 then print (MsgRemaining (remain_of x82)) else returnE ()) (\<lambda>_.
           bindE (scan_read_block tr a 0x20 0x73 2) (\<lambda>(rc, icc).
           if rc = 0 then print (MsgIccMaxScan (icc ! 0)) else returnE ()))))
         else returnE ()))
       else returnE ())
     else returnE ())"

text \<open>The classification of a present device, lines 274 to 317. Each \<^verbatim>\<open>continue\<close>
  (after \<^verbatim>\<open>a += 1\<close>) ends the work on this address.\<close>

definition scan_classify :: "transport \<Rightarrow> int \<Rightarrow> unit prog" where
  "scan_classify tr a =
     bindE (print (MsgFoundDevice a)) (\<lambda>_.
     bindE (scan_read_block tr a 0x00 0xAD 5) (\<lambda>(rc, ad5).
     if rc = 0 \<and> length ad5 = 5 \<and> ad5 ! 4 = 0x49 \<and> ad5 ! 3 = 0xD2 \<and> ad5 ! 2 = 0x23 \<and> ad5 ! 1 = 0x00
     then print (MsgProbablyISL69127 a) else
     bindE (scan_read_block tr a 0x00 0xAD 2) (\<lambda>(rc, ad2).
     if rc = 0 \<and> ad2 ! 0 = 0x01 \<and> ad2 ! 1 = 0x79 then print (MsgProbablyTPS53679 a) else
     if rc = 0 \<and> ad2 ! 0 = 0x01 \<and> ad2 ! 1 = 0x78 then print (MsgProbablyTPS53678 a) else
     bindE (scan_read_block tr a 0x00 0xBF 2) (\<lambda>(rc, bf).
     if rc = 0 \<and> bf ! 0 = 0x55 \<and> bf ! 1 = 0x25 then print (MsgProbablyMP2955A a) else
     scan_primarion tr a))))"

text \<open>One pass through the body of the scan loop for address \<open>a\<close>: the presence
  probe is a plain \<^verbatim>\<open>read_block\<close> of register 0x00, one byte, no retry.\<close>

definition scan_addr :: "transport \<Rightarrow> int \<Rightarrow> unit prog" where
  "scan_addr tr a =
     bindE (print (MsgScanning a)) (\<lambda>_ s.
       case read_block tr a 0x00 1 s of ((rc, _), s1) \<Rightarrow>
         if rc = 0 then scan_classify tr a s1 else (Ret (), s1))"

function scan_pmbus :: "transport \<Rightarrow> int \<Rightarrow> int \<Rightarrow> int prog" where
  "scan_pmbus tr a end_addr s =
     (if a \<le> end_addr then
        (case scan_addr tr a s of
           (Raised e, s') \<Rightarrow> (Raised e, s')
         | (Ret _, s') \<Rightarrow> scan_pmbus tr (a + 1) end_addr s')
      else (Ret 0, s))"
  by pat_completeness auto
termination
  by (relation "measure (\<lambda>(tr, a, end_addr, s). nat (end_addr + 1 - a))") auto

section \<open>Command dispatch\<close>

text \<open>The family branch of \<^verbatim>\<open>main\<close>, lines 382 to 395, entered once both addresses
  have been parsed: \<open>a2\<close> is \<open>None\<close> when no second address was given. An exception
  of a procedure is not caught anywhere in \<^verbatim>\<open>main\<close>.\<close>

definition main_family :: "transport \<Rightarrow> string \<Rightarrow> int \<Rightarrow> int option \<Rightarrow> unit prog" where
  "main_family tr cmd a1 a2 =
     (if cmd = ''-PXE1610C'' then
        bindE (pxe1610_set_icc_max tr a1) (\<lambda>_.
        case a2 of None \<Rightarrow> returnE ()
        | Some a \<Rightarrow> bindE (pxe1610_set_icc_max tr a) (\<lambda>_. returnE ()))
      else if cmd = ''-MP2955A'' then
        bindE (mp2955a_set_icc_max tr a1) (\<lambda>_.
        case a2 of None \<Rightarrow> returnE ()
        | Some a \<Rightarrow> bindE (mp2955a_set_icc_max tr a) (\<lambda>_. returnE ()))
      else if cmd = ''-TPS53679'' \<or> cmd = ''-TPS53678'' then
        bindE (tps53679_set_icc_max tr a1) (\<lambda>_.
        case a2 of None \<Rightarrow> returnE ()
        | Some a \<Rightarrow> bindE (tps53679_set_icc_max tr a) (\<lambda>_. returnE ()))
      else returnE ())"

section \<open>Observations on traces\<close>

text \<open>The bus transactions of a trace, in order, and the events a run appended.\<close>

fun txs :: "trace \<Rightarrow> (call \<times> byte list option) list" where
  "txs [] = []"
| "txs (Tx c r # es) = (c, r) # txs es"
| "txs (_ # es) = txs es"

definition appended :: "trace \<Rightarrow> trace \<Rightarrow> trace" where
  "appended s s' = drop (length s) s'"

text \<open>The page-select transaction \<^verbatim>\<open>[0x00, page]\<close> at an address.\<close>

definition page_select :: "int \<Rightarrow> int \<Rightarrow> call" where
  "page_select a p = WriteTx a [0, word_of_int p]"

fun is_read :: "call \<Rightarrow> bool" where
  "is_read (ReadTx a reg n) = True"
| "is_read (WriteTx a d) = False"

text \<open>The number of failed transactions. Every pass through a retry loop that ends
  without success contains exactly one failed transaction (the page select, or the
  payload after a successful page select), so on the transactions of one paged
  operation this is the number of failed attempts.\<close>

definition fails :: "(call \<times> byte list option) list \<Rightarrow> nat" where
  "fails t = length (filter (\<lambda>x. snd x = None) t)"

text \<open>The data of the first successful read of register \<open>reg\<close> with \<open>n\<close> bytes.\<close>

fun ok_read :: "int \<Rightarrow> nat \<Rightarrow> trace \<Rightarrow> byte list option" where
  "ok_read reg n [] = None"
| "ok_read reg n (Tx (ReadTx a reg' n') (Some d) # es) =
     (if reg' = reg \<and> n' = n then Some d else ok_read reg n es)"
| "ok_read reg n (_ # es) = ok_read reg n es"

text \<open>What follows the first printing of a line.\<close>

fun after_print :: "msg \<Rightarrow> trace \<Rightarrow> trace" where
  "after_print m [] = []"
| "after_print m (e # es) = (if e = Print m then es else after_print m es)"

text \<open>The scanner's reports: which family a printed line announces, at which address.
  \<^verbatim>\<open>Primarion family controller found\<close> and \<^verbatim>\<open>PXE1610C found\<close> both belong to the
  PXE1610C/Primarion family.\<close>

datatype family = ISL69127 | TPS5367x | MP2955A | PXE1610C

fun report_of :: "event \<Rightarrow> (int \<times> family) option" where
  "report_of (Print (MsgProbablyISL69127 a)) = Some (a, ISL69127)"
| "report_of (Print (MsgProbablyTPS53679 a)) = Some (a, TPS5367x)"
| "report_of (Print (MsgProbablyTPS53678 a)) = Some (a, TPS5367x)"
| "report_of (Print (MsgProbablyMP2955A a)) = Some (a, MP2955A)"
| "report_of (Print (MsgPrimarion a)) = Some (a, PXE1610C)"
| "report_of (Print (MsgPxeFoundAt a)) = Some (a, PXE1610C)"
| "report_of _ = None"

definition reports :: "trace \<Rightarrow> int \<Rightarrow> family \<Rightarrow> bool" where
  "reports es a f = (Some (a, f) \<in> set (map report_of es))"

text \<open>The position of a read in the scanner's fixed order of tests: presence probe,
  ISL69127, TPS53679/78, MP2955A, then the PXE1610C reads.\<close>

definition test_rank :: "call \<Rightarrow> nat" where
  "test_rank c = (case c of
       WriteTx a d \<Rightarrow> 0
     | ReadTx a reg n \<Rightarrow>
         if reg = 0x00 \<and> n = 1 then 0
         else if reg = 0xAD \<and> n = 5 then 1
         else if reg = 0xAD \<and> n = 2 then 2
         else if reg = 0xBF \<and> n = 2 then 3
         else if reg = 0xFD \<and> n = 1 then 4
         else if reg = 0x1A \<and> n = 1 then 5
         else if reg = 0x32 \<and> n = 2 then 6
         else if reg = 0x82 \<and> n = 2 then 7
         else if reg = 0x73 \<and> n = 2 then 8
         else 9)"




text \<open>One paged operation with \<open>n\<close> attempts (section 4.1 of the specification),
  read off the front of a list of transactions: each attempt is the page select \<open>ps\<close>
  and, when that succeeded, the transaction \<open>c\<close>; the operation ends at the first
  successful \<open>c\<close>, or after \<open>n\<close> failed attempts. The result is the outcome (the data
  of the successful \<open>c\<close>, \<open>None\<close> when every attempt failed) together with the
  transactions that follow the operation; it is \<open>None\<close> when the list does not start
  with such an operation.\<close>

fun take_op :: "nat \<Rightarrow> call \<Rightarrow> call \<Rightarrow> (call \<times> byte list option) list
                  \<Rightarrow> (byte list option \<times> (call \<times> byte list option) list) option" where
  "take_op 0 ps c t = Some (None, t)"
| "take_op (Suc n) ps c [] = None"
| "take_op (Suc n) ps c ((c1, None) # t) = (if c1 = ps then take_op n ps c t else None)"
| "take_op (Suc n) ps c [(c1, Some x)] = None"
| "take_op (Suc n) ps c ((c1, Some x) # (c2, None) # t) =
     (if c1 = ps \<and> c2 = c then take_op n ps c t else None)"
| "take_op (Suc n) ps c ((c1, Some x) # (c2, Some d) # t) =
     (if c1 = ps \<and> c2 = c then Some (Some d, t) else None)"

text \<open>A transaction \<open>c\<close> that succeeded, and one that was issued, somewhere in a trace.\<close>

definition succeeded :: "call \<Rightarrow> trace \<Rightarrow> bool" where
  "succeeded c es = (c \<in> fst ` {x \<in> set (txs es). snd x \<noteq> None})"

definition attempted :: "call \<Rightarrow> trace \<Rightarrow> bool" where
  "attempted c es = (c \<in> fst ` set (txs es))"

text \<open>The trace ends with a paged operation whose \<open>n\<close> attempts all failed: from some
  position on, its transactions are exactly \<open>n\<close> failed attempts of the operation with
  page select \<open>ps\<close> and transaction \<open>c\<close>, and nothing follows them.\<close>

definition ends_failed :: "nat \<Rightarrow> call \<Rightarrow> call \<Rightarrow> trace \<Rightarrow> bool" where
  "ends_failed n ps c es =
     list_ex (\<lambda>k. take_op n ps c (drop k (txs es)) = Some (None, [])) [0 ..< length (txs es)]"

text \<open>The last transaction of the trace is \<open>c\<close>, and it succeeded.\<close>

definition ends_ok :: "call \<Rightarrow> trace \<Rightarrow> bool" where
  "ends_ok c es = (txs es \<noteq> [] \<and> fst (last (txs es)) = c \<and> snd (last (txs es)) \<noteq> None)"

section \<open>The scan of one address in the words of the specification\<close>

text \<open>
  A second description of the scanner, written from sections 4.2 and 4.4 of the
  specification and not from the source, to compare \<open>scan_addr\<close> with.

  \<open>spec_signature\<close> is the table of section 4.2: for each family the ordered checks
  (page, register, length, expected value). \<open>spec_order\<close> is the fixed order
  of the families.
\<close>

definition spec_signature :: "family \<Rightarrow> (int \<times> int \<times> nat \<times> (byte list \<Rightarrow> bool)) list" where
  "spec_signature f = (case f of
       ISL69127 \<Rightarrow> [(0x00, 0xAD, 5, \<lambda>d. d ! 4 = 0x49 \<and> d ! 3 = 0xD2 \<and> d ! 2 = 0x23 \<and> d ! 1 = 0x00)]
     | TPS5367x \<Rightarrow> [(0x00, 0xAD, 2, \<lambda>d. d ! 0 = 0x01 \<and> (d ! 1 = 0x79 \<or> d ! 1 = 0x78))]
     | MP2955A \<Rightarrow> [(0x00, 0xBF, 2, \<lambda>d. d ! 0 = 0x55 \<and> d ! 1 = 0x25)]
     | PXE1610C \<Rightarrow> [(0x00, 0xFD, 1, \<lambda>d. d ! 0 = 0xB3), (0x4F, 0x1A, 1, \<lambda>d. d ! 0 = 0x00),
                     (0x4F, 0x32, 2, \<lambda>d. d ! 0 = 0x15 \<and> d ! 1 = 0x04)])"

definition spec_order :: "family list" where
  "spec_order = [ISL69127, TPS5367x, MP2955A, PXE1610C]"

text \<open>The checks of one family are evaluated strictly in order, each by a paged read with
  the shallow retry (two attempts); a check is only attempted if all prior checks
  succeeded and matched. The result is the number of checks that matched and the
  transactions that follow.\<close>

fun spec_checks :: "int \<Rightarrow> (int \<times> int \<times> nat \<times> (byte list \<Rightarrow> bool)) list
      \<Rightarrow> (call \<times> byte list option) list \<Rightarrow> (nat \<times> (call \<times> byte list option) list) option" where
  "spec_checks a [] t = Some (0, t)"
| "spec_checks a ((p, reg, n, ok) # cs) t =
     (case take_op 2 (page_select a p) (ReadTx a reg n) t of
        None \<Rightarrow> None
      | Some (res, t') \<Rightarrow>
          if (case res of Some d \<Rightarrow> ok d | None \<Rightarrow> False)
          then map_option (\<lambda>(k, t''). (Suc k, t'')) (spec_checks a cs t')
          else Some (0, t'))"

text \<open>The families are tested in order; the first family whose full signature matches
  ends the classification. The result lists the families that were tested, each with the
  number of its checks that matched, and the transactions that follow.\<close>

fun spec_families :: "int \<Rightarrow> family list \<Rightarrow> (call \<times> byte list option) list
      \<Rightarrow> ((family \<times> nat) list \<times> (call \<times> byte list option) list) option" where
  "spec_families a [] t = Some ([], t)"
| "spec_families a (f # fs) t =
     (case spec_checks a (spec_signature f) t of
        None \<Rightarrow> None
      | Some (k, t') \<Rightarrow>
          if k = length (spec_signature f) then Some ([(f, k)], t')
          else map_option (\<lambda>(l, t''). ((f, k) # l, t'')) (spec_families a fs t'))"

text \<open>One address: the presence probe is a single read of register 0x00 without page
  select; absence suppresses all further checks. On presence the families are tested; for
  a confirmed PXE1610C (all three checks matched) the remaining-attempts counter and
  ICC_MAX are read, each by a paged read with two attempts. No other transaction is
  issued. The result is \<open>None\<close> when the transactions are not of this form.\<close>

definition spec_scan :: "int \<Rightarrow> (call \<times> byte list option) list \<Rightarrow> (family \<times> nat) list option" where
  "spec_scan a t =
     (case t of
        [] \<Rightarrow> None
      | (c, x) # t0 \<Rightarrow>
          if c \<noteq> ReadTx a 0x00 1 then None
          else if x = None then (if t0 = [] then Some [] else None)
          else (case spec_families a spec_order t0 of
                  None \<Rightarrow> None
                | Some (l, t1) \<Rightarrow>
                    if (PXE1610C, 3) \<in> set l then
                      (case take_op 2 (page_select a 0x50) (ReadTx a 0x82 2) t1 of
                         None \<Rightarrow> None
                       | Some (r1, t2) \<Rightarrow>
                          (case take_op 2 (page_select a 0x20) (ReadTx a 0x73 2) t2 of
                             None \<Rightarrow> None
                           | Some (r2, t3) \<Rightarrow> if t3 = [] then Some l else None))
                    else if t1 = [] then Some l else None))"

section \<open>Transport behaviours used as concrete inputs\<close>

text \<open>A bus on which every transaction fails (no device answers).\<close>

definition dead_bus :: transport where
  "dead_bus s c = None"

text \<open>A device that acknowledges every write and answers a read of register \<open>reg\<close>
  with \<open>regs reg\<close>.\<close>

definition reg_dev :: "(int \<Rightarrow> byte list) \<Rightarrow> transport" where
  "reg_dev regs s c = (case c of WriteTx a d \<Rightarrow> Some [] | ReadTx a reg n \<Rightarrow> Some (regs reg))"

text \<open>The transport \<open>base\<close>, except that the transactions selected by \<open>bad\<close> fail.\<close>

definition failing :: "(trace \<Rightarrow> call \<Rightarrow> bool) \<Rightarrow> transport \<Rightarrow> transport" where
  "failing bad base s c = (if bad s c then None else base s c)"

definition pxe_regs :: "byte list \<Rightarrow> int \<Rightarrow> byte list" where
  "pxe_regs icc reg =
     (if reg = 0xFD then [0xB3] else if reg = 0x1A then [0x00] else if reg = 0x32 then [0x15, 0x04]
      else if reg = 0x73 then icc else if reg = 0x82 then [0xC0, 0x05] else [])"

definition mp_regs :: "byte list \<Rightarrow> int \<Rightarrow> byte list" where
  "mp_regs icc reg = (if reg = 0xBF then [0x55, 0x25] else if reg = 0xEF then icc else [])"

definition tps_regs :: "byte list \<Rightarrow> int \<Rightarrow> byte list" where
  "tps_regs icc reg = (if reg = 0xAD then [0x01, 0x79] else if reg = 0xDA then icc else [])"

section \<open>Reasoning about runs\<close>

text \<open>\<open>run m s Q\<close>: from trace \<open>s\<close> the program \<open>m\<close> only appends events, and its
  result and the appended events satisfy \<open>Q\<close>.\<close>

definition run :: "'a prog \<Rightarrow> trace \<Rightarrow> ('a res \<Rightarrow> trace \<Rightarrow> bool) \<Rightarrow> bool" where
  "run m s Q = (case m s of (r, s') \<Rightarrow> take (length s) s' = s \<and> Q r (appended s s'))"

text \<open>Every transaction other than the page select \<open>ps\<close> comes right after a successful
  \<open>ps\<close>; \<open>b\<close> says whether a successful \<open>ps\<close> comes right before the list.\<close>

fun paged_from :: "call \<Rightarrow> bool \<Rightarrow> (call \<times> byte list option) list \<Rightarrow> bool" where
  "paged_from ps b [] = True"
| "paged_from ps b ((c, r) # xs) = ((c = ps \<or> b) \<and> paged_from ps (c = ps \<and> r \<noteq> None) xs)"

text \<open>What a paged read with a page and a register in \<open>0..255\<close> returns and appends.\<close>

definition rd_post :: "int \<Rightarrow> int \<Rightarrow> int \<Rightarrow> nat \<Rightarrow> (int \<times> byte list) res \<Rightarrow> trace \<Rightarrow> bool" where
  "rd_post a p reg n r new =
    (paged_from (page_select a p) False (txs new) \<and>
     (\<forall>e\<in>set new. (\<exists>k. e = Print (MsgRetry k)) \<or> (\<exists>x. e = Tx (page_select a p) x)
                    \<or> (\<exists>x. e = Tx (ReadTx a reg n) x)) \<and>
     ((\<exists>d pre. r = Ret (0, d) \<and> length d = n \<and> new = pre @ [Tx (ReadTx a reg n) (Some d)]
          \<and> (\<forall>d'. Tx (ReadTx a reg n) (Some d') \<notin> set pre))
      \<or> (r = Ret (-1, []) \<and> (\<forall>d'. Tx (ReadTx a reg n) (Some d') \<notin> set new))))"

text \<open>What a paged write with a page in \<open>0..255\<close> returns and appends.\<close>

definition wr_post :: "int \<Rightarrow> int \<Rightarrow> byte list \<Rightarrow> int res \<Rightarrow> trace \<Rightarrow> bool" where
  "wr_post a p pl r new =
    (paged_from (page_select a p) False (txs new) \<and>
     (\<forall>e\<in>set new. (\<exists>k. e = Print (MsgTry k)) \<or> (\<exists>x. e = Tx (page_select a p) x)
                    \<or> (\<exists>x. e = Tx (WriteTx a pl) x)) \<and>
     (r = Ret 0 \<or> r = Ret (-1)))"

text \<open>After each failed transaction, unless it uses up the last of the \<open>n\<close> remaining
  attempts, the next transaction exists and is the page select \<open>ps\<close>.\<close>

fun restarts :: "call \<Rightarrow> nat \<Rightarrow> (call \<times> byte list option) list \<Rightarrow> bool" where
  "restarts ps n [] = True"
| "restarts ps n ((c, r) # xs) =
     (if r = None then (1 < n \<longrightarrow> xs \<noteq> [] \<and> fst (hd xs) = ps) \<and> restarts ps (n - 1) xs
      else restarts ps n xs)"

text \<open>What the transactions \<open>t\<close> of a retry loop with \<open>n\<close> attempts left look like;
  \<open>pg\<close> says whether the page is selected, \<open>ok\<close> whether the loop returned 0.\<close>

definition retry_post :: "call \<Rightarrow> bool \<Rightarrow> nat \<Rightarrow> bool \<Rightarrow> (call \<times> byte list option) list \<Rightarrow> bool" where
  "retry_post ps pg n ok t =
     ((if ok then fails t < n \<and> t \<noteq> [] \<and> snd (last t) \<noteq> None else fails t = n) \<and>
      length t \<le> 2 * n \<and>
      (pg \<longrightarrow> restarts ps n t \<and> paged_from ps False t \<and> (0 < n \<longrightarrow> t \<noteq> [] \<and> fst (hd t) = ps)))"

text \<open>What the transactions \<open>t\<close> of a retry loop with \<open>n\<close> attempts left are: one
  paged operation and nothing else, made of the page select \<open>ps\<close> and the transaction
  \<open>c\<close> only, starting with \<open>ps\<close>; on success the last transaction is the successful
  \<open>c\<close>, on failure no \<open>c\<close> succeeded.\<close>

definition op_post :: "call \<Rightarrow> call \<Rightarrow> nat \<Rightarrow> byte list option \<Rightarrow> (call \<times> byte list option) list \<Rightarrow> bool" where
  "op_post ps c n res t =
     ((\<forall>rest. take_op n ps c (t @ rest) = Some (res, rest)) \<and>
      fst ` set t \<subseteq> {ps, c} \<and>
      (0 < n \<longrightarrow> t \<noteq> [] \<and> fst (hd t) = ps) \<and>
      (case res of Some d \<Rightarrow> t \<noteq> [] \<and> last t = (c, Some d)
                 | None \<Rightarrow> (\<forall>d. (c, Some d) \<notin> set t)))"

text \<open>The same for the events \<open>new\<close> of a whole operation (at least one attempt).\<close>

definition opr :: "nat \<Rightarrow> call \<Rightarrow> call \<Rightarrow> byte list option \<Rightarrow> trace \<Rightarrow> bool" where
  "opr k ps c res new = (c \<noteq> ps \<and> 0 < k \<and> op_post ps c k res (txs new))"

text \<open>The ranks of the reads of a trace, in order.\<close>

definition ranks :: "trace \<Rightarrow> nat list" where
  "ranks es = map test_rank (filter is_read (map fst (txs es)))"

section \<open>Rules for runs\<close>

declare vrm_read_loop.simps [simp del] vrm_write_loop.simps [simp del]
  scan_read_loop.simps [simp del] scan_pmbus.simps [simp del]

lemma runI: "m s = (r, s @ new) \<Longrightarrow> Q r new \<Longrightarrow> run m s Q"
  by (simp add: run_def appended_def)

lemma runE:
  assumes "run m s Q" and "\<And>r new. m s = (r, s @ new) \<Longrightarrow> Q r new \<Longrightarrow> R"
  shows R
proof -
  obtain r s' where ms: "m s = (r, s')" by (cases "m s")
  from assms(1) ms have t: "take (length s) s' = s" and q: "Q r (drop (length s) s')"
    by (simp_all add: run_def appended_def)
  have "s' = s @ drop (length s) s'" using t append_take_drop_id[of "length s" s'] by simp
  with ms have "m s = (r, s @ drop (length s) s')" by simp
  from assms(2)[OF this q] show R .
qed

lemma run_bindE:
  assumes "run m s Q1"
    and "\<And>x n1. Q1 (Ret x) n1 \<Longrightarrow> run (f x) (s @ n1) (\<lambda>r n2. Q r (n1 @ n2))"
    and "\<And>e n1. Q1 (Raised e) n1 \<Longrightarrow> Q (Raised e) n1"
  shows "run (bindE m f) s Q"
proof -
  from assms(1) obtain r n1 where m: "m s = (r, s @ n1)" and q1: "Q1 r n1" by (rule runE)
  show ?thesis
  proof (cases r)
    case (Ret x)
    from assms(2)[OF q1[unfolded Ret]] obtain r2 n2 where
      f: "f x (s @ n1) = (r2, (s @ n1) @ n2)" and q: "Q r2 (n1 @ n2)" by (rule runE)
    show ?thesis by (rule runI[where new="n1 @ n2" and r=r2]) (simp_all add: bindE_def m Ret f q)
  next
    case (Raised e)
    show ?thesis by (rule runI[where new=n1 and r="Raised e"]) (simp_all add: bindE_def m Raised assms(3)[OF q1[unfolded Raised]])
  qed
qed

lemma run_print: "Q (Ret ()) [Print m] \<Longrightarrow> run (print m) s Q"
  by (rule runI[where new="[Print m]" and r="Ret ()"]) (simp_all add: print_def)

lemma run_sleep: "Q (Ret ()) [Sleep n] \<Longrightarrow> run (sleep n) s Q"
  by (rule runI[where new="[Sleep n]" and r="Ret ()"]) (simp_all add: sleep_def)

lemma run_returnE: "Q (Ret x) [] \<Longrightarrow> run (returnE x) s Q"
  by (rule runI[where new="[]" and r="Ret x"]) (simp_all add: returnE_def)

lemma run_raiseE: "Q (Raised e) [] \<Longrightarrow> run (raiseE e) s Q"
  by (rule runI[where new="[]" and r="Raised e"]) (simp_all add: raiseE_def)

lemma run_weaken:
  assumes "run m s Q" and "\<And>r new. Q r new \<Longrightarrow> Q' r new"
  shows "run m s Q'"
proof -
  from assms(1) obtain r new where "m s = (r, s @ new)" "Q r new" by (rule runE)
  then show ?thesis using assms(2) by (intro runI[where r=r and new=new]) simp_all
qed

lemma run_conj:
  assumes "run m s Q1" and "run m s Q2"
  shows "run m s (\<lambda>r new. Q1 r new \<and> Q2 r new)"
  using assms by (auto simp: run_def split: prod.splits)



lemma txs_append [simp]: "txs (xs @ ys) = txs xs @ txs ys"
  by (induction xs rule: txs.induct) simp_all

lemma paged_from_mono: "paged_from ps b xs \<Longrightarrow> paged_from ps True xs"
  by (cases xs) auto

lemma paged_from_False: "paged_from ps False xs \<Longrightarrow> paged_from ps b xs"
  by (cases xs) auto

lemma read_attempt_cases:
  assumes "0 \<le> p" "p \<le> 255" "0 \<le> reg" "reg \<le> 255"
  shows "read_attempt tr a p reg n s = (Ret None, s @ [Tx (page_select a p) None]) \<or>
         read_attempt tr a p reg n s = (Ret None, s @ [Tx (page_select a p) (Some []), Tx (ReadTx a reg n) None]) \<or>
         (\<exists>d. length d = n \<and> read_attempt tr a p reg n s =
               (Ret (Some d), s @ [Tx (page_select a p) (Some []), Tx (ReadTx a reg n) (Some d)]))"
  using assms
  by (auto simp: read_attempt_def py_bytes_def write_block_def read_block_def fit_def page_select_def
           split: option.splits)

lemma rd_post_step:
  assumes "rd_post a p reg n r new"
    and "A = [Tx (page_select a p) None] \<or> A = [Tx (page_select a p) (Some []), Tx (ReadTx a reg n) None]"
    and "P = [] \<or> P = [Print (MsgRetry k)]"
  shows "rd_post a p reg n r (P @ A @ new)"
proof -
  have ps: "page_select a p \<noteq> ReadTx a reg n" by (simp add: page_select_def)
  from assms(1) have pg: "paged_from (page_select a p) False (txs new)"
    and al: "\<forall>e\<in>set new. (\<exists>k. e = Print (MsgRetry k)) \<or> (\<exists>x. e = Tx (page_select a p) x)
                    \<or> (\<exists>x. e = Tx (ReadTx a reg n) x)"
    and re: "(\<exists>d pre. r = Ret (0, d) \<and> length d = n \<and> new = pre @ [Tx (ReadTx a reg n) (Some d)]
          \<and> (\<forall>d'. Tx (ReadTx a reg n) (Some d') \<notin> set pre))
      \<or> (r = Ret (-1, []) \<and> (\<forall>d'. Tx (ReadTx a reg n) (Some d') \<notin> set new))"
    by (simp_all add: rd_post_def)
  have 1: "paged_from (page_select a p) False (txs (P @ A @ new))"
    using assms(2,3) pg by (auto intro: paged_from_False)
  have 2: "\<forall>e\<in>set (P @ A @ new). (\<exists>k. e = Print (MsgRetry k)) \<or> (\<exists>x. e = Tx (page_select a p) x)
                    \<or> (\<exists>x. e = Tx (ReadTx a reg n) x)"
    using assms(2,3) al by auto
  have 3: "(\<exists>d pre. r = Ret (0, d) \<and> length d = n \<and> P @ A @ new = pre @ [Tx (ReadTx a reg n) (Some d)]
          \<and> (\<forall>d'. Tx (ReadTx a reg n) (Some d') \<notin> set pre))
      \<or> (r = Ret (-1, []) \<and> (\<forall>d'. Tx (ReadTx a reg n) (Some d') \<notin> set (P @ A @ new)))"
    using re
  proof
    assume "\<exists>d pre. r = Ret (0, d) \<and> length d = n \<and> new = pre @ [Tx (ReadTx a reg n) (Some d)]
          \<and> (\<forall>d'. Tx (ReadTx a reg n) (Some d') \<notin> set pre)"
    then obtain d pre where h: "r = Ret (0, d)" "length d = n" "new = pre @ [Tx (ReadTx a reg n) (Some d)]"
      "\<forall>d'. Tx (ReadTx a reg n) (Some d') \<notin> set pre" by blast
    have "P @ A @ new = (P @ A @ pre) @ [Tx (ReadTx a reg n) (Some d)]" using h(3) by simp
    moreover have "\<forall>d'. Tx (ReadTx a reg n) (Some d') \<notin> set (P @ A @ pre)"
      using h(4) assms(2,3) ps by auto
    ultimately show ?thesis using h(1,2) by blast
  next
    assume "r = Ret (-1, []) \<and> (\<forall>d'. Tx (ReadTx a reg n) (Some d') \<notin> set new)"
    then show ?thesis using assms(2,3) ps by auto
  qed
  from 1 2 3 show ?thesis unfolding rd_post_def by blast
qed

lemma rd_post_ok:
  assumes "length d = n" and "P = [] \<or> P = [Print (MsgRetry k)]"
  shows "rd_post a p reg n (Ret (0, d)) (P @ [Tx (page_select a p) (Some []), Tx (ReadTx a reg n) (Some d)])"
proof -
  have ps: "page_select a p \<noteq> ReadTx a reg n" by (simp add: page_select_def)
  have "P @ [Tx (page_select a p) (Some []), Tx (ReadTx a reg n) (Some d)]
        = (P @ [Tx (page_select a p) (Some [])]) @ [Tx (ReadTx a reg n) (Some d)]" by simp
  moreover have "\<forall>d'. Tx (ReadTx a reg n) (Some d') \<notin> set (P @ [Tx (page_select a p) (Some [])])"
    using assms(2) ps by auto
  ultimately have "\<exists>d0 pre. Ret (0, d) = Ret (0::int, d0) \<and> length d0 = n \<and>
      P @ [Tx (page_select a p) (Some []), Tx (ReadTx a reg n) (Some d)] = pre @ [Tx (ReadTx a reg n) (Some d0)]
          \<and> (\<forall>d'. Tx (ReadTx a reg n) (Some d') \<notin> set pre)"
    using assms(1) by blast
  moreover have "paged_from (page_select a p) False (txs (P @ [Tx (page_select a p) (Some []), Tx (ReadTx a reg n) (Some d)]))"
    using assms(2) by auto
  moreover have "\<forall>e\<in>set (P @ [Tx (page_select a p) (Some []), Tx (ReadTx a reg n) (Some d)]).
       (\<exists>k. e = Print (MsgRetry k)) \<or> (\<exists>x. e = Tx (page_select a p) x) \<or> (\<exists>x. e = Tx (ReadTx a reg n) x)"
    using assms(2) by auto
  ultimately show ?thesis unfolding rd_post_def by blast
qed

lemma rd_post_nil: "rd_post a p reg n (Ret (-1, [])) []"
  by (simp add: rd_post_def)

lemma vrm_read_loop_run:
  assumes "0 \<le> p" "p \<le> 255" "0 \<le> reg" "reg \<le> 255"
  shows "run (vrm_read_loop tr a p reg n tries) s (rd_post a p reg n)"
  using assms
proof (induction tr a p reg n tries s rule: vrm_read_loop.induct)
  case (1 tr a p reg n tries s)
  define P where "P = (if tries > 0 then [Print (MsgRetry tries)] else [])"
  have s0: "(if tries > 0 then s @ [Print (MsgRetry tries)] else s) = s @ P" by (simp add: P_def)
  have Pc: "P = [] \<or> P = [Print (MsgRetry tries)]" by (simp add: P_def)
  show ?case
  proof (cases "tries < RETRY_RW")
    case False
    then have "vrm_read_loop tr a p reg n tries s = (Ret (-1, []), s @ [])" by (subst vrm_read_loop.simps) simp
    then show ?thesis by (rule runI) (rule rd_post_nil)
  next
    case True
    from read_attempt_cases[OF "1.prems", of tr a n "s @ P"]
    consider (fail) A where "A = [Tx (page_select a p) None] \<or> A = [Tx (page_select a p) (Some []), Tx (ReadTx a reg n) None]"
        "read_attempt tr a p reg n (s @ P) = (Ret None, (s @ P) @ A)"
      | (ok) d where "length d = n" "read_attempt tr a p reg n (s @ P) =
               (Ret (Some d), (s @ P) @ [Tx (page_select a p) (Some []), Tx (ReadTx a reg n) (Some d)])"
      by auto
    then show ?thesis
    proof cases
      case fail
      have "run (vrm_read_loop tr a p reg n (tries + 1)) ((s @ P) @ A) (rd_post a p reg n)"
        by (rule "1.IH"[OF True _ refl refl "1.prems"]) (simp add: s0 fail(2))
      then obtain r new where l: "vrm_read_loop tr a p reg n (tries + 1) ((s @ P) @ A) = (r, ((s @ P) @ A) @ new)"
        and q: "rd_post a p reg n r new" by (rule runE)
      have "vrm_read_loop tr a p reg n tries s = (r, s @ (P @ A @ new))"
        using True fail(2) l s0 by (subst vrm_read_loop.simps) simp
      then show ?thesis by (rule runI) (rule rd_post_step[OF q fail(1) Pc])
    next
      case ok
      have "vrm_read_loop tr a p reg n tries s = (Ret (0, d), s @ (P @ [Tx (page_select a p) (Some []), Tx (ReadTx a reg n) (Some d)]))"
        using True ok(2) s0 by (subst vrm_read_loop.simps) simp
      then show ?thesis by (rule runI) (rule rd_post_ok[OF ok(1) Pc])
    qed
  qed
qed


lemma write_attempt_cases:
  assumes "0 \<le> p" "p \<le> 255"
  shows "write_attempt tr a p pl s = (Ret (-1), s @ [Tx (page_select a p) None]) \<or>
         write_attempt tr a p pl s = (Ret (-1), s @ [Tx (page_select a p) (Some []), Tx (WriteTx a pl) None]) \<or>
         write_attempt tr a p pl s = (Ret 0, s @ [Tx (page_select a p) (Some []), Tx (WriteTx a pl) (Some [])])"
  using assms
  by (auto simp: write_attempt_def py_bytes_def write_block_def page_select_def split: option.splits)

lemma wr_post_step:
  assumes "wr_post a p pl r new"
    and "A = [Tx (page_select a p) None] \<or> A = [Tx (page_select a p) (Some []), Tx (WriteTx a pl) None]"
    and "P = [] \<or> P = [Print (MsgTry k)]"
  shows "wr_post a p pl r (P @ A @ new)"
  using assms unfolding wr_post_def by (auto intro: paged_from_False)

lemma wr_post_ok:
  assumes "P = [] \<or> P = [Print (MsgTry k)]"
  shows "wr_post a p pl (Ret 0) (P @ [Tx (page_select a p) (Some []), Tx (WriteTx a pl) (Some [])])"
  using assms unfolding wr_post_def by auto

lemma wr_post_nil: "wr_post a p pl (Ret (-1)) []"
  by (simp add: wr_post_def)

lemma vrm_write_loop_run:
  assumes "0 \<le> p" "p \<le> 255"
  shows "run (vrm_write_loop tr a p pl tries) s (wr_post a p pl)"
  using assms
proof (induction tr a p pl tries s rule: vrm_write_loop.induct)
  case (1 tr a p pl tries s)
  define P where "P = (if tries > 0 then [Print (MsgTry tries)] else [])"
  have s0: "(if tries > 0 then s @ [Print (MsgTry tries)] else s) = s @ P" by (simp add: P_def)
  have Pc: "P = [] \<or> P = [Print (MsgTry tries)]" by (simp add: P_def)
  show ?case
  proof (cases "tries < RETRY_RW")
    case False
    then have "vrm_write_loop tr a p pl tries s = (Ret (-1), s @ [])" by (subst vrm_write_loop.simps) simp
    then show ?thesis by (rule runI) (rule wr_post_nil)
  next
    case True
    from write_attempt_cases[OF "1.prems", of tr a pl "s @ P"]
    consider (fail) A where "A = [Tx (page_select a p) None] \<or> A = [Tx (page_select a p) (Some []), Tx (WriteTx a pl) None]"
        "write_attempt tr a p pl (s @ P) = (Ret (-1), (s @ P) @ A)"
      | (ok) "write_attempt tr a p pl (s @ P) =
               (Ret 0, (s @ P) @ [Tx (page_select a p) (Some []), Tx (WriteTx a pl) (Some [])])"
      by auto
    then show ?thesis
    proof cases
      case fail
      have e: "(Ret (-1), (s @ P) @ A) = write_attempt tr a p pl (if tries > 0 then s @ [Print (MsgTry tries)] else s)"
        by (simp add: s0 fail(2))
      have "run (vrm_write_loop tr a p pl (tries + 1)) ((s @ P) @ A) (wr_post a p pl)"
        by (rule "1.IH"[OF True e refl _ "1.prems"]) simp
      then obtain r new where l: "vrm_write_loop tr a p pl (tries + 1) ((s @ P) @ A) = (r, ((s @ P) @ A) @ new)"
        and q: "wr_post a p pl r new" by (rule runE)
      have "vrm_write_loop tr a p pl tries s = (r, s @ (P @ A @ new))"
        using True fail(2) l s0 by (subst vrm_write_loop.simps) simp
      then show ?thesis by (rule runI) (rule wr_post_step[OF q fail(1) Pc])
    next
      case ok
      have "vrm_write_loop tr a p pl tries s = (Ret 0, s @ (P @ [Tx (page_select a p) (Some []), Tx (WriteTx a pl) (Some [])]))"
        using True ok s0 by (subst vrm_write_loop.simps) simp
      then show ?thesis by (rule runI) (rule wr_post_ok[OF Pc])
    qed
  qed
qed

lemma scan_read_loop_run:
  assumes "0 \<le> p" "p \<le> 255" "0 \<le> reg" "reg \<le> 255"
  shows "run (scan_read_loop tr a p reg n tries) s (rd_post a p reg n)"
  using assms
proof (induction tr a p reg n tries s rule: scan_read_loop.induct)
  case (1 tr a p reg n tries s)
  have Pc: "([]::trace) = [] \<or> [] = [Print (MsgRetry 0)]" by simp
  show ?case
  proof (cases "tries < RETRY_SCAN")
    case False
    then have "scan_read_loop tr a p reg n tries s = (Ret (-1, []), s @ [])" by (subst scan_read_loop.simps) simp
    then show ?thesis by (rule runI) (rule rd_post_nil)
  next
    case True
    from read_attempt_cases[OF "1.prems", of tr a n s]
    consider (fail) A where "A = [Tx (page_select a p) None] \<or> A = [Tx (page_select a p) (Some []), Tx (ReadTx a reg n) None]"
        "read_attempt tr a p reg n s = (Ret None, s @ A)"
      | (ok) d where "length d = n" "read_attempt tr a p reg n s =
               (Ret (Some d), s @ [Tx (page_select a p) (Some []), Tx (ReadTx a reg n) (Some d)])"
      by auto
    then show ?thesis
    proof cases
      case fail
      have "run (scan_read_loop tr a p reg n (tries + 1)) (s @ A) (rd_post a p reg n)"
        by (rule "1.IH"[OF True _ refl refl "1.prems"]) (simp add: fail(2))
      then obtain r new where l: "scan_read_loop tr a p reg n (tries + 1) (s @ A) = (r, (s @ A) @ new)"
        and q: "rd_post a p reg n r new" by (rule runE)
      have "scan_read_loop tr a p reg n tries s = (r, s @ ([] @ A @ new))"
        using True fail(2) l by (subst scan_read_loop.simps) simp
      then show ?thesis by (rule runI) (rule rd_post_step[OF q fail(1) Pc])
    next
      case ok
      have "scan_read_loop tr a p reg n tries s = (Ret (0, d), s @ ([] @ [Tx (page_select a p) (Some []), Tx (ReadTx a reg n) (Some d)]))"
        using True ok(2) by (subst scan_read_loop.simps) simp
      then show ?thesis by (rule runI) (rule rd_post_ok[OF ok(1) Pc])
    qed
  qed
qed

lemma run_bind_print:
  "run (f ()) (s @ [Print m]) (\<lambda>r n2. Q r (Print m # n2)) \<Longrightarrow> run (bindE (print m) f) s Q"
  by (rule run_bindE[where ?Q1.0="\<lambda>r new. r = Ret () \<and> new = [Print m]"])
     (auto intro: run_print)

lemma run_bind_sleep:
  "run (f ()) (s @ [Sleep k]) (\<lambda>r n2. Q r (Sleep k # n2)) \<Longrightarrow> run (bindE (sleep k) f) s Q"
  by (rule run_bindE[where ?Q1.0="\<lambda>r new. r = Ret () \<and> new = [Sleep k]"])
     (auto intro: run_sleep)

lemma run_bind_return:
  "run (f x) s Q \<Longrightarrow> run (bindE (returnE x) f) s Q"
  by (rule run_bindE[where ?Q1.0="\<lambda>r new. r = Ret x \<and> new = []"])
     (auto intro: run_returnE)

lemma run_bind_raise:
  "Q (Raised e) [] \<Longrightarrow> run (bindE (raiseE e) f) s Q"
  by (rule run_bindE[where ?Q1.0="\<lambda>r new. r = Raised e \<and> new = []"])
     (auto intro: run_raiseE)

lemma run_bind_rd:
  assumes "0 \<le> p" "p \<le> 255" "0 \<le> reg" "reg \<le> 255"
    and "\<And>rc d n1. rd_post a p reg n (Ret (rc, d)) n1 \<Longrightarrow> run (f (rc, d)) (s @ n1) (\<lambda>r n2. Q r (n1 @ n2))"
  shows "run (bindE (vrm_read_block tr a p reg n) f) s Q"
proof (rule run_bindE[where ?Q1.0="rd_post a p reg n"])
  show "run (vrm_read_block tr a p reg n) s (rd_post a p reg n)"
    unfolding vrm_read_block_def by (rule vrm_read_loop_run[OF assms(1-4)])
next
  fix x n1 assume "rd_post a p reg n (Ret x) n1"
  then show "run (f x) (s @ n1) (\<lambda>r n2. Q r (n1 @ n2))" using assms(5)[of "fst x" "snd x" n1] by simp
next
  fix e n1 assume "rd_post a p reg n (Raised e) n1"
  then show "Q (Raised e) n1" by (simp add: rd_post_def)
qed

lemma run_bind_scan:
  assumes "0 \<le> p" "p \<le> 255" "0 \<le> reg" "reg \<le> 255"
    and "\<And>rc d n1. rd_post a p reg n (Ret (rc, d)) n1 \<Longrightarrow> run (f (rc, d)) (s @ n1) (\<lambda>r n2. Q r (n1 @ n2))"
  shows "run (bindE (scan_read_block tr a p reg n) f) s Q"
proof (rule run_bindE[where ?Q1.0="rd_post a p reg n"])
  show "run (scan_read_block tr a p reg n) s (rd_post a p reg n)"
    unfolding scan_read_block_def by (rule scan_read_loop_run[OF assms(1-4)])
next
  fix x n1 assume "rd_post a p reg n (Ret x) n1"
  then show "run (f x) (s @ n1) (\<lambda>r n2. Q r (n1 @ n2))" using assms(5)[of "fst x" "snd x" n1] by simp
next
  fix e n1 assume "rd_post a p reg n (Raised e) n1"
  then show "Q (Raised e) n1" by (simp add: rd_post_def)
qed

lemma run_bind_wr:
  assumes "0 \<le> p" "p \<le> 255"
    and "\<And>rc n1. wr_post a p pl (Ret rc) n1 \<Longrightarrow> run (f rc) (s @ n1) (\<lambda>r n2. Q r (n1 @ n2))"
  shows "run (bindE (vrm_write_block tr a p pl) f) s Q"
proof (rule run_bindE[where ?Q1.0="wr_post a p pl"])
  show "run (vrm_write_block tr a p pl) s (wr_post a p pl)"
    unfolding vrm_write_block_def by (rule vrm_write_loop_run[OF assms(1-2)])
next
  fix x n1 assume "wr_post a p pl (Ret x) n1"
  then show "run (f x) (s @ n1) (\<lambda>r n2. Q r (n1 @ n2))" by (rule assms(3))
next
  fix e n1 assume "wr_post a p pl (Raised e) n1"
  then show "Q (Raised e) n1" by (simp add: wr_post_def)
qed

lemma run_if: "(c \<Longrightarrow> run m1 s Q) \<Longrightarrow> (\<not> c \<Longrightarrow> run m2 s Q) \<Longrightarrow> run (if c then m1 else m2) s Q"
  by simp

lemma run_bind_if:
  "(c \<Longrightarrow> run (bindE m1 f) s Q) \<Longrightarrow> (\<not> c \<Longrightarrow> run (bindE m2 f) s Q) \<Longrightarrow> run (bindE (if c then m1 else m2) f) s Q"
  by simp

lemmas run_rules = run_bind_rd run_bind_wr run_bind_scan run_bind_print run_bind_sleep run_bind_return
   run_bind_raise run_if run_bind_if run_print run_returnE run_raiseE run_sleep

lemma rd_post_tx: "rd_post a p reg n r new \<Longrightarrow> Tx c x \<in> set new \<Longrightarrow> c = page_select a p \<or> c = ReadTx a reg n"
  unfolding rd_post_def by auto

lemma wr_post_tx: "wr_post a p pl r new \<Longrightarrow> Tx c x \<in> set new \<Longrightarrow> c = page_select a p \<or> c = WriteTx a pl"
  unfolding wr_post_def by auto


section \<open>The retry loops\<close>

lemma fails_simps [simp]:
  "fails [] = 0"
  "fails ((c, None) # t) = Suc (fails t)"
  "fails ((c, Some d) # t) = fails t"
  "fails (t @ u) = fails t + fails u"
  by (simp_all add: fails_def)

lemma restarts_nth:
  "restarts ps n t \<Longrightarrow> i < length t \<Longrightarrow> snd (t ! i) = None \<Longrightarrow> fails (take (Suc i) t) < n
     \<Longrightarrow> Suc i < length t \<and> fst (t ! Suc i) = ps"
proof (induction t arbitrary: n i)
  case Nil
  then show ?case by simp
next
  case (Cons x t)
  obtain c r where x: "x = (c, r)" by (cases x)
  show ?case
  proof (cases i)
    case 0
    with Cons.prems x have "r = None" "1 < n" by auto
    with Cons.prems(1) x have "t \<noteq> []" "fst (hd t) = ps" by auto
    then show ?thesis using 0 by (cases t) auto
  next
    case (Suc j)
    show ?thesis
    proof (cases r)
      case None
      with Cons.prems x Suc have "restarts ps (n - 1) t" "j < length t" "snd (t ! j) = None"
        "fails (take (Suc j) t) < n - 1" by auto
      from Cons.IH[OF this] show ?thesis using Suc by simp
    next
      case (Some d)
      with Cons.prems x Suc have "restarts ps n t" "j < length t" "snd (t ! j) = None"
        "fails (take (Suc j) t) < n" by auto
      from Cons.IH[OF this] show ?thesis using Suc by simp
    qed
  qed
qed

lemma paged_from_nth:
  "paged_from ps b t \<Longrightarrow> i < length t \<Longrightarrow> fst (t ! i) \<noteq> ps \<Longrightarrow>
     (if i = 0 then b else fst (t ! (i - 1)) = ps \<and> snd (t ! (i - 1)) \<noteq> None)"
proof (induction t arbitrary: b i)
  case Nil
  then show ?case by simp
next
  case (Cons x t)
  obtain c r where x: "x = (c, r)" by (cases x)
  show ?case
  proof (cases i)
    case 0
    with Cons.prems x show ?thesis by auto
  next
    case (Suc j)
    with Cons.prems x have "paged_from ps (c = ps \<and> r \<noteq> None) t" "j < length t" "fst (t ! j) \<noteq> ps"
      by auto
    from Cons.IH[OF this] show ?thesis using Suc x by (cases j) auto
  qed
qed

lemma retry_post_zero: "retry_post ps pg 0 False []"
  by (simp add: retry_post_def)

lemma retry_post_ok:
  assumes "if pg then tA = [(ps, Some x), (c, Some y)] else tA = [(c, Some y)]"
  shows "retry_post ps pg (Suc m) True tA"
  using assms by (auto simp: retry_post_def split: if_splits)

lemma retry_post_fail:
  assumes "retry_post ps pg m ok t'"
    and "if pg then tA = [(ps, None)] \<or> tA = [(ps, Some x), (c, None)] else tA = [(c, None)]"
  shows "retry_post ps pg (Suc m) ok (tA @ t')"
proof (cases pg)
  case False
  with assms show ?thesis by (auto simp: retry_post_def split: if_splits)
next
  case True
  with assms(2) have sh: "tA = [(ps, None)] \<or> tA = [(ps, Some x), (c, None)]" by simp
  from assms(1) True have r: "restarts ps m t'" and pf: "paged_from ps False t'"
    and h: "0 < m \<longrightarrow> t' \<noteq> [] \<and> fst (hd t') = ps"
    and f: "if ok then fails t' < m \<and> t' \<noteq> [] \<and> snd (last t') \<noteq> None else fails t' = m"
    and l: "length t' \<le> 2 * m"
    by (simp_all add: retry_post_def)
  have pt: "paged_from ps b t'" for b using pf by (rule paged_from_False)
  have 1: "restarts ps (Suc m) (tA @ t')" using sh r h by auto
  have 2: "paged_from ps False (tA @ t')" using sh pt by auto
  have 3: "tA @ t' \<noteq> [] \<and> fst (hd (tA @ t')) = ps" using sh by auto
  have 4: "if ok then fails (tA @ t') < Suc m \<and> tA @ t' \<noteq> [] \<and> snd (last (tA @ t')) \<noteq> None
           else fails (tA @ t') = Suc m"
    using sh f by (auto split: if_splits)
  have 5: "length (tA @ t') \<le> 2 * Suc m" using sh l by auto
  from 1 2 3 4 5 show ?thesis by (simp add: retry_post_def)
qed

lemma write_attempt_shape:
  assumes "p \<le> 255"
  shows "\<exists>tA A. txs A = tA \<and>
     (write_attempt tr a p pl s = (Ret 0, s @ A) \<and>
        (if 0 \<le> p then tA = [(page_select a p, Some []), (WriteTx a pl, Some [])]
         else tA = [(WriteTx a pl, Some [])])
      \<or> write_attempt tr a p pl s = (Ret (-1), s @ A) \<and>
        (if 0 \<le> p then tA = [(page_select a p, None)] \<or> tA = [(page_select a p, Some []), (WriteTx a pl, None)]
         else tA = [(WriteTx a pl, None)]))"
  using assms
  by (cases "tr s (WriteTx a [0, word_of_int p])"; cases "tr s (WriteTx a pl)";
      cases "tr (s @ [Tx (WriteTx a [0, word_of_int p]) (Some [])]) (WriteTx a pl)")
     (auto simp: write_attempt_def py_bytes_def write_block_def page_select_def)

lemma read_attempt_shape:
  assumes "p \<le> 255" "0 \<le> reg" "reg \<le> 255"
  shows "\<exists>tA A. txs A = tA \<and>
     ((\<exists>d. read_attempt tr a p reg n s = (Ret (Some d), s @ A) \<and>
        (if 0 \<le> p then tA = [(page_select a p, Some []), (ReadTx a reg n, Some d)]
         else tA = [(ReadTx a reg n, Some d)]))
      \<or> read_attempt tr a p reg n s = (Ret None, s @ A) \<and>
        (if 0 \<le> p then tA = [(page_select a p, None)] \<or> tA = [(page_select a p, Some []), (ReadTx a reg n, None)]
         else tA = [(ReadTx a reg n, None)]))"
  using assms
  by (cases "tr s (WriteTx a [0, word_of_int p])"; cases "tr s (ReadTx a reg n)";
      cases "tr (s @ [Tx (WriteTx a [0, word_of_int p]) (Some [])]) (ReadTx a reg n)")
     (auto simp: read_attempt_def py_bytes_def write_block_def read_block_def page_select_def)

lemma vrm_write_loop_retry:
  assumes "p \<le> 255"
  shows "run (vrm_write_loop tr a p pl tries) s
           (\<lambda>r new. (r = Ret 0 \<or> r = Ret (-1)) \<and>
              retry_post (page_select a p) (0 \<le> p) (nat (RETRY_RW - tries)) (r = Ret 0) (txs new))"
  using assms
proof (induction tr a p pl tries s rule: vrm_write_loop.induct)
  case (1 tr a p pl tries s)
  define P where "P = (if tries > 0 then [Print (MsgTry tries)] else [])"
  have s0: "(if tries > 0 then s @ [Print (MsgTry tries)] else s) = s @ P" by (simp add: P_def)
  have tP: "txs P = []" by (simp add: P_def)
  show ?case
  proof (cases "tries < RETRY_RW")
    case False
    then have e: "vrm_write_loop tr a p pl tries s = (Ret (-1), s @ [])" by (subst vrm_write_loop.simps) simp
    from False have "nat (RETRY_RW - tries) = 0" by simp
    then show ?thesis using e by (intro runI[where r="Ret (-1)" and new="[]"]) (simp_all add: retry_post_zero)
  next
    case True
    then have n: "nat (RETRY_RW - tries) = Suc (nat (RETRY_RW - (tries + 1)))" by simp
    from write_attempt_shape[OF "1.prems", of tr a pl "s @ P"]
    obtain tA A where tA: "txs A = tA" and
      c: "write_attempt tr a p pl (s @ P) = (Ret 0, (s @ P) @ A) \<and>
        (if 0 \<le> p then tA = [(page_select a p, Some []), (WriteTx a pl, Some [])]
         else tA = [(WriteTx a pl, Some [])])
      \<or> write_attempt tr a p pl (s @ P) = (Ret (-1), (s @ P) @ A) \<and>
        (if 0 \<le> p then tA = [(page_select a p, None)] \<or> tA = [(page_select a p, Some []), (WriteTx a pl, None)]
         else tA = [(WriteTx a pl, None)])" by auto
    from c show ?thesis
    proof
      assume ok: "write_attempt tr a p pl (s @ P) = (Ret 0, (s @ P) @ A) \<and>
        (if 0 \<le> p then tA = [(page_select a p, Some []), (WriteTx a pl, Some [])]
         else tA = [(WriteTx a pl, Some [])])"
      then have "vrm_write_loop tr a p pl tries s = (Ret 0, s @ (P @ A))"
        using True s0 by (subst vrm_write_loop.simps) simp
      moreover have "retry_post (page_select a p) (0 \<le> p) (nat (RETRY_RW - tries)) True (txs (P @ A))"
        unfolding n using ok by (intro retry_post_ok[where x="[]" and y="[]" and c="WriteTx a pl"]) (simp add: tP tA)
      ultimately show ?thesis by (intro runI[where r="Ret 0" and new="P @ A"]) simp_all
    next
      assume fl: "write_attempt tr a p pl (s @ P) = (Ret (-1), (s @ P) @ A) \<and>
        (if 0 \<le> p then tA = [(page_select a p, None)] \<or> tA = [(page_select a p, Some []), (WriteTx a pl, None)]
         else tA = [(WriteTx a pl, None)])"
      have e: "(Ret (-1), (s @ P) @ A) = write_attempt tr a p pl (if tries > 0 then s @ [Print (MsgTry tries)] else s)"
        by (simp add: s0 fl)
      have "run (vrm_write_loop tr a p pl (tries + 1)) ((s @ P) @ A)
           (\<lambda>r new. (r = Ret 0 \<or> r = Ret (-1)) \<and>
              retry_post (page_select a p) (0 \<le> p) (nat (RETRY_RW - (tries + 1))) (r = Ret 0) (txs new))"
        by (rule "1.IH"[OF True e refl _ "1.prems"]) simp
      then obtain r new where l: "vrm_write_loop tr a p pl (tries + 1) ((s @ P) @ A) = (r, ((s @ P) @ A) @ new)"
        and q: "r = Ret 0 \<or> r = Ret (-1)"
           "retry_post (page_select a p) (0 \<le> p) (nat (RETRY_RW - (tries + 1))) (r = Ret 0) (txs new)"
        by (rule runE) blast
      have "vrm_write_loop tr a p pl tries s = (r, s @ (P @ A @ new))"
        using True fl l s0 by (subst vrm_write_loop.simps) simp
      moreover have "retry_post (page_select a p) (0 \<le> p) (nat (RETRY_RW - tries)) (r = Ret 0) (txs (P @ A @ new))"
        unfolding n using retry_post_fail[OF q(2), of tA "[]" "WriteTx a pl"] fl by (simp add: tP tA)
      ultimately show ?thesis using q(1) by (intro runI[where r=r and new="P @ A @ new"]) simp_all
    qed
  qed
qed

lemma vrm_read_loop_retry:
  assumes "p \<le> 255" "0 \<le> reg" "reg \<le> 255"
  shows "run (vrm_read_loop tr a p reg n tries) s
           (\<lambda>r new. \<exists>rc d. r = Ret (rc, d) \<and> (rc = 0 \<or> rc = -1) \<and>
              retry_post (page_select a p) (0 \<le> p) (nat (RETRY_RW - tries)) (rc = 0) (txs new))"
  using assms
proof (induction tr a p reg n tries s rule: vrm_read_loop.induct)
  case (1 tr a p reg n tries s)
  define P where "P = (if tries > 0 then [Print (MsgRetry tries)] else [])"
  have s0: "(if tries > 0 then s @ [Print (MsgRetry tries)] else s) = s @ P" by (simp add: P_def)
  have tP: "txs P = []" by (simp add: P_def)
  show ?case
  proof (cases "tries < RETRY_RW")
    case False
    then have e: "vrm_read_loop tr a p reg n tries s = (Ret (-1, []), s @ [])" by (subst vrm_read_loop.simps) simp
    from False have "nat (RETRY_RW - tries) = 0" by simp
    then show ?thesis using e
      by (intro runI[where r="Ret (-1, [])" and new="[]"]) (simp_all add: retry_post_zero)
  next
    case True
    then have n: "nat (RETRY_RW - tries) = Suc (nat (RETRY_RW - (tries + 1)))" by simp
    from read_attempt_shape[OF "1.prems", of tr a n "s @ P"]
    obtain tA A where tA: "txs A = tA" and
      c: "(\<exists>d. read_attempt tr a p reg n (s @ P) = (Ret (Some d), (s @ P) @ A) \<and>
        (if 0 \<le> p then tA = [(page_select a p, Some []), (ReadTx a reg n, Some d)]
         else tA = [(ReadTx a reg n, Some d)]))
      \<or> read_attempt tr a p reg n (s @ P) = (Ret None, (s @ P) @ A) \<and>
        (if 0 \<le> p then tA = [(page_select a p, None)] \<or> tA = [(page_select a p, Some []), (ReadTx a reg n, None)]
         else tA = [(ReadTx a reg n, None)])" by auto
    from c show ?thesis
    proof
      assume "\<exists>d. read_attempt tr a p reg n (s @ P) = (Ret (Some d), (s @ P) @ A) \<and>
        (if 0 \<le> p then tA = [(page_select a p, Some []), (ReadTx a reg n, Some d)]
         else tA = [(ReadTx a reg n, Some d)])"
      then obtain d where ok: "read_attempt tr a p reg n (s @ P) = (Ret (Some d), (s @ P) @ A)"
        "if 0 \<le> p then tA = [(page_select a p, Some []), (ReadTx a reg n, Some d)]
         else tA = [(ReadTx a reg n, Some d)]" by blast
      then have "vrm_read_loop tr a p reg n tries s = (Ret (0, d), s @ (P @ A))"
        using True s0 by (subst vrm_read_loop.simps) simp
      moreover have "retry_post (page_select a p) (0 \<le> p) (nat (RETRY_RW - tries)) True (txs (P @ A))"
        unfolding n using ok(2)
        by (intro retry_post_ok[where x="[]" and y=d and c="ReadTx a reg n"]) (simp add: tP tA)
      ultimately show ?thesis by (intro runI[where r="Ret (0, d)" and new="P @ A"]) simp_all
    next
      assume fl: "read_attempt tr a p reg n (s @ P) = (Ret None, (s @ P) @ A) \<and>
        (if 0 \<le> p then tA = [(page_select a p, None)] \<or> tA = [(page_select a p, Some []), (ReadTx a reg n, None)]
         else tA = [(ReadTx a reg n, None)])"
      have e: "(Ret None, (s @ P) @ A) = read_attempt tr a p reg n ((if tries > 0 then s @ [Print (MsgRetry tries)] else s))"
        by (simp add: s0 fl)
      have "run (vrm_read_loop tr a p reg n (tries + 1)) ((s @ P) @ A)
           (\<lambda>r new. \<exists>rc d. r = Ret (rc, d) \<and> (rc = 0 \<or> rc = -1) \<and>
              retry_post (page_select a p) (0 \<le> p) (nat (RETRY_RW - (tries + 1))) (rc = 0) (txs new))"
        by (rule "1.IH"[OF True e refl refl "1.prems"])
      then obtain r new rc d where l: "vrm_read_loop tr a p reg n (tries + 1) ((s @ P) @ A) = (r, ((s @ P) @ A) @ new)"
        and q: "r = Ret (rc, d)" "rc = 0 \<or> rc = -1"
           "retry_post (page_select a p) (0 \<le> p) (nat (RETRY_RW - (tries + 1))) (rc = 0) (txs new)"
        by (rule runE) blast
      have "vrm_read_loop tr a p reg n tries s = (r, s @ (P @ A @ new))"
        using True fl l s0 by (subst vrm_read_loop.simps) simp
      moreover have "retry_post (page_select a p) (0 \<le> p) (nat (RETRY_RW - tries)) (rc = 0) (txs (P @ A @ new))"
        unfolding n using retry_post_fail[OF q(3), of tA "[]" "ReadTx a reg n"] fl by (simp add: tP tA)
      ultimately show ?thesis using q(1,2) by (intro runI[where r=r and new="P @ A @ new"]) simp_all
    qed
  qed
qed

lemma scan_read_loop_retry:
  assumes "p \<le> 255" "0 \<le> reg" "reg \<le> 255"
  shows "run (scan_read_loop tr a p reg n tries) s
           (\<lambda>r new. \<exists>rc d. r = Ret (rc, d) \<and> (rc = 0 \<or> rc = -1) \<and>
              retry_post (page_select a p) (0 \<le> p) (nat (RETRY_SCAN - tries)) (rc = 0) (txs new))"
  using assms
proof (induction tr a p reg n tries s rule: scan_read_loop.induct)
  case (1 tr a p reg n tries s)
  define P where "P = ([]::trace)"
  have s0: "P = []" by (simp add: P_def)
  have tP: "txs P = []" by (simp add: P_def)
  show ?case
  proof (cases "tries < RETRY_SCAN")
    case False
    then have e: "scan_read_loop tr a p reg n tries s = (Ret (-1, []), s @ [])" by (subst scan_read_loop.simps) simp
    from False have "nat (RETRY_SCAN - tries) = 0" by simp
    then show ?thesis using e
      by (intro runI[where r="Ret (-1, [])" and new="[]"]) (simp_all add: retry_post_zero)
  next
    case True
    then have n: "nat (RETRY_SCAN - tries) = Suc (nat (RETRY_SCAN - (tries + 1)))" by simp
    from read_attempt_shape[OF "1.prems", of tr a n "s @ P"]
    obtain tA A where tA: "txs A = tA" and
      c: "(\<exists>d. read_attempt tr a p reg n (s @ P) = (Ret (Some d), (s @ P) @ A) \<and>
        (if 0 \<le> p then tA = [(page_select a p, Some []), (ReadTx a reg n, Some d)]
         else tA = [(ReadTx a reg n, Some d)]))
      \<or> read_attempt tr a p reg n (s @ P) = (Ret None, (s @ P) @ A) \<and>
        (if 0 \<le> p then tA = [(page_select a p, None)] \<or> tA = [(page_select a p, Some []), (ReadTx a reg n, None)]
         else tA = [(ReadTx a reg n, None)])" by auto
    from c show ?thesis
    proof
      assume "\<exists>d. read_attempt tr a p reg n (s @ P) = (Ret (Some d), (s @ P) @ A) \<and>
        (if 0 \<le> p then tA = [(page_select a p, Some []), (ReadTx a reg n, Some d)]
         else tA = [(ReadTx a reg n, Some d)])"
      then obtain d where ok: "read_attempt tr a p reg n (s @ P) = (Ret (Some d), (s @ P) @ A)"
        "if 0 \<le> p then tA = [(page_select a p, Some []), (ReadTx a reg n, Some d)]
         else tA = [(ReadTx a reg n, Some d)]" by blast
      then have "scan_read_loop tr a p reg n tries s = (Ret (0, d), s @ (P @ A))"
        using True s0 by (subst scan_read_loop.simps) simp
      moreover have "retry_post (page_select a p) (0 \<le> p) (nat (RETRY_SCAN - tries)) True (txs (P @ A))"
        unfolding n using ok(2)
        by (intro retry_post_ok[where x="[]" and y=d and c="ReadTx a reg n"]) (simp add: tP tA)
      ultimately show ?thesis by (intro runI[where r="Ret (0, d)" and new="P @ A"]) simp_all
    next
      assume fl: "read_attempt tr a p reg n (s @ P) = (Ret None, (s @ P) @ A) \<and>
        (if 0 \<le> p then tA = [(page_select a p, None)] \<or> tA = [(page_select a p, Some []), (ReadTx a reg n, None)]
         else tA = [(ReadTx a reg n, None)])"
      have e: "(Ret None, (s @ P) @ A) = read_attempt tr a p reg n s"
        using fl by (simp add: s0)
      have "run (scan_read_loop tr a p reg n (tries + 1)) ((s @ P) @ A)
           (\<lambda>r new. \<exists>rc d. r = Ret (rc, d) \<and> (rc = 0 \<or> rc = -1) \<and>
              retry_post (page_select a p) (0 \<le> p) (nat (RETRY_SCAN - (tries + 1))) (rc = 0) (txs new))"
        by (rule "1.IH"[OF True e refl refl "1.prems"])
      then obtain r new rc d where l: "scan_read_loop tr a p reg n (tries + 1) ((s @ P) @ A) = (r, ((s @ P) @ A) @ new)"
        and q: "r = Ret (rc, d)" "rc = 0 \<or> rc = -1"
           "retry_post (page_select a p) (0 \<le> p) (nat (RETRY_SCAN - (tries + 1))) (rc = 0) (txs new)"
        by (rule runE) blast
      have "scan_read_loop tr a p reg n tries s = (r, s @ (P @ A @ new))"
        using True fl l s0 by (subst scan_read_loop.simps) simp
      moreover have "retry_post (page_select a p) (0 \<le> p) (nat (RETRY_SCAN - tries)) (rc = 0) (txs (P @ A @ new))"
        unfolding n using retry_post_fail[OF q(3), of tA "[]" "ReadTx a reg n"] fl by (simp add: tP tA)
      ultimately show ?thesis using q(1,2) by (intro runI[where r=r and new="P @ A @ new"]) simp_all
    qed
  qed
qed

lemma run_caseD:
  assumes "run m s Q"
  shows "case m s of (r, s') \<Rightarrow> take (length s) s' = s \<and> Q r (appended s s')"
  using assms by (simp add: run_def)

lemma retry_post_restart:
  assumes "retry_post ps True n ok t"
  shows "(\<forall>i. i < length t \<and> snd (t ! i) = None \<and> fails (take (Suc i) t) < n
            \<longrightarrow> Suc i < length t \<and> fst (t ! Suc i) = ps) \<and>
         (\<forall>i. i < length t \<and> fst (t ! i) \<noteq> ps
            \<longrightarrow> 0 < i \<and> fst (t ! (i - 1)) = ps \<and> snd (t ! (i - 1)) \<noteq> None)"
proof -
  from assms have r: "restarts ps n t" and p: "paged_from ps False t" by (simp_all add: retry_post_def)
  show ?thesis
  proof (rule conjI; intro allI impI)
    fix i assume "i < length t \<and> snd (t ! i) = None \<and> fails (take (Suc i) t) < n"
    then show "Suc i < length t \<and> fst (t ! Suc i) = ps" using restarts_nth[OF r, of i] by simp
  next
    fix i assume h: "i < length t \<and> fst (t ! i) \<noteq> ps"
    then have "if i = 0 then False else fst (t ! (i - 1)) = ps \<and> snd (t ! (i - 1)) \<noteq> None"
      using paged_from_nth[OF p, of i] by simp
    then show "0 < i \<and> fst (t ! (i - 1)) = ps \<and> snd (t ! (i - 1)) \<noteq> None"
      by (simp split: if_splits)
  qed
qed

lemmas eval_simps = vrm_write_block_def vrm_read_block_def scan_read_block_def
  vrm_write_loop.simps vrm_read_loop.simps scan_read_loop.simps write_attempt_def read_attempt_def
  write_block_def read_block_def py_bytes_def fit_def RETRY_RW_def RETRY_SCAN_def
  dead_bus_def reg_dev_def failing_def page_select_def appended_def fails_def
  bindE_def returnE_def raiseE_def print_def sleep_def


text \<open>
  C7. For every address, page (at most 255; negative is the "no page" sentinel) and
  payload, a paged write and a paged read make at most 4 attempts, the scan read at most
  2: the operation returns 0 or -1; when it returns -1 exactly 4 (scan: 2) transactions
  failed, one per attempt; when it returns 0 fewer than 4 (2) failed and the last
  transaction succeeded; it never issues more than 8 (4) transactions, and the trace it
  returns is the trace it was given with these transactions appended, so nothing
  follows an exhausted budget.
\<close>

theorem retry_budget:
  "page \<le> 255 \<Longrightarrow> 0 \<le> reg \<Longrightarrow> reg \<le> 255 \<Longrightarrow>
   (case vrm_write_block tr a page payload s of (r, s') \<Rightarrow>
      take (length s) s' = s \<and> (r = Ret 0 \<or> r = Ret (-1)) \<and>
      (r = Ret (-1) \<longrightarrow> fails (txs (appended s s')) = 4) \<and>
      (r = Ret 0 \<longrightarrow> fails (txs (appended s s')) < 4 \<and> txs (appended s s') \<noteq> []
                     \<and> snd (last (txs (appended s s'))) \<noteq> None) \<and>
      length (txs (appended s s')) \<le> 8) \<and>
   (case vrm_read_block tr a page reg n s of (r, s') \<Rightarrow>
      take (length s) s' = s \<and> (\<exists>rc d. r = Ret (rc, d) \<and> (rc = 0 \<or> rc = -1) \<and>
      (rc = -1 \<longrightarrow> fails (txs (appended s s')) = 4) \<and>
      (rc = 0 \<longrightarrow> fails (txs (appended s s')) < 4 \<and> txs (appended s s') \<noteq> []
                     \<and> snd (last (txs (appended s s'))) \<noteq> None)) \<and>
      length (txs (appended s s')) \<le> 8) \<and>
   (case scan_read_block tr a page reg n s of (r, s') \<Rightarrow>
      take (length s) s' = s \<and> (\<exists>rc d. r = Ret (rc, d) \<and> (rc = 0 \<or> rc = -1) \<and>
      (rc = -1 \<longrightarrow> fails (txs (appended s s')) = 2) \<and>
      (rc = 0 \<longrightarrow> fails (txs (appended s s')) < 2 \<and> txs (appended s s') \<noteq> []
                     \<and> snd (last (txs (appended s s'))) \<noteq> None)) \<and>
      length (txs (appended s s')) \<le> 4)"
proof (intro conjI)
  assume h: "page \<le> 255" "0 \<le> reg" "reg \<le> 255"
  show "case vrm_write_block tr a page payload s of (r, s') \<Rightarrow>
      take (length s) s' = s \<and> (r = Ret 0 \<or> r = Ret (-1)) \<and>
      (r = Ret (-1) \<longrightarrow> fails (txs (appended s s')) = 4) \<and>
      (r = Ret 0 \<longrightarrow> fails (txs (appended s s')) < 4 \<and> txs (appended s s') \<noteq> []
                     \<and> snd (last (txs (appended s s'))) \<noteq> None) \<and>
      length (txs (appended s s')) \<le> 8"
    using run_caseD[OF vrm_write_loop_retry[OF h(1), of tr a payload 0 s]]
    by (auto simp: vrm_write_block_def retry_post_def RETRY_RW_def split: prod.splits)
  show "case vrm_read_block tr a page reg n s of (r, s') \<Rightarrow>
      take (length s) s' = s \<and> (\<exists>rc d. r = Ret (rc, d) \<and> (rc = 0 \<or> rc = -1) \<and>
      (rc = -1 \<longrightarrow> fails (txs (appended s s')) = 4) \<and>
      (rc = 0 \<longrightarrow> fails (txs (appended s s')) < 4 \<and> txs (appended s s') \<noteq> []
                     \<and> snd (last (txs (appended s s'))) \<noteq> None)) \<and>
      length (txs (appended s s')) \<le> 8"
    using run_caseD[OF vrm_read_loop_retry[OF h, of tr a n 0 s]]
    by (auto simp: vrm_read_block_def retry_post_def RETRY_RW_def split: prod.splits)
  show "case scan_read_block tr a page reg n s of (r, s') \<Rightarrow>
      take (length s) s' = s \<and> (\<exists>rc d. r = Ret (rc, d) \<and> (rc = 0 \<or> rc = -1) \<and>
      (rc = -1 \<longrightarrow> fails (txs (appended s s')) = 2) \<and>
      (rc = 0 \<longrightarrow> fails (txs (appended s s')) < 2 \<and> txs (appended s s') \<noteq> []
                     \<and> snd (last (txs (appended s s'))) \<noteq> None)) \<and>
      length (txs (appended s s')) \<le> 4"
    using run_caseD[OF scan_read_loop_retry[OF h, of tr a n 0 s]]
    by (auto simp: scan_read_block_def retry_post_def RETRY_SCAN_def split: prod.splits)
qed


theorem retry_budget_witness:
  "(0x20::int) \<le> 255 \<and> (0::int) \<le> 0x73 \<and> (0x73::int) \<le> 255 \<and>
   fst (vrm_write_block dead_bus 0x58 0x20 [0x73, 0xFF, 0x00] []) = Ret (-1) \<and>
   fails (txs (snd (vrm_write_block dead_bus 0x58 0x20 [0x73, 0xFF, 0x00] []))) = 4 \<and>
   fst (vrm_read_block (reg_dev (pxe_regs [0x80, 0x00])) 0x58 0x20 0x73 2 []) = Ret (0, [0x80, 0x00]) \<and>
   fails (txs (snd (vrm_read_block (reg_dev (pxe_regs [0x80, 0x00])) 0x58 0x20 0x73 2 []))) < 4 \<and>
   fst (scan_read_block dead_bus 0x58 0x20 0x73 2 []) = Ret (-1, []) \<and>
   fails (txs (snd (scan_read_block dead_bus 0x58 0x20 0x73 2 []))) = 2"
  using retry_budget[where page="0x20" and reg="0x73" and tr=dead_bus and a="0x58"
                       and payload="[0x73, 0xFF, 0x00]" and s="[]" and n=2]
        retry_budget[where page="0x20" and reg="0x73" and tr="reg_dev (pxe_regs [0x80, 0x00])" and a="0x58"
                       and payload="[0x73, 0xFF, 0x00]" and s="[]" and n=2]
  by (simp add: eval_simps pxe_regs_def)


text \<open>
  C6. For every paged write and paged read with a page in 0..255: whenever a
  transaction fails (in particular the payload after a successful page select) and
  fewer than 4 (scan read: 2) transactions have failed so far, that is, the failure
  ends attempt k below the budget, a next transaction exists and it is the page select;
  and a transaction that is not the page select only ever comes right after a
  successful page select. So every retry starts again from the page select.
\<close>

theorem retry_restarts_at_page_select:
  "0 \<le> page \<Longrightarrow> page \<le> 255 \<Longrightarrow> 0 \<le> reg \<Longrightarrow> reg \<le> 255 \<Longrightarrow>
   (case vrm_write_block tr a page payload s of (r, s') \<Rightarrow>
      (\<forall>i. i < length (txs (appended s s')) \<and> snd (txs (appended s s') ! i) = None
            \<and> fails (take (Suc i) (txs (appended s s'))) < 4
          \<longrightarrow> Suc i < length (txs (appended s s')) \<and> fst (txs (appended s s') ! Suc i) = page_select a page) \<and>
      (\<forall>i. i < length (txs (appended s s')) \<and> fst (txs (appended s s') ! i) \<noteq> page_select a page
          \<longrightarrow> 0 < i \<and> fst (txs (appended s s') ! (i - 1)) = page_select a page \<and> snd (txs (appended s s') ! (i - 1)) \<noteq> None)) \<and>
   (case vrm_read_block tr a page reg n s of (r, s') \<Rightarrow>
      (\<forall>i. i < length (txs (appended s s')) \<and> snd (txs (appended s s') ! i) = None
            \<and> fails (take (Suc i) (txs (appended s s'))) < 4
          \<longrightarrow> Suc i < length (txs (appended s s')) \<and> fst (txs (appended s s') ! Suc i) = page_select a page) \<and>
      (\<forall>i. i < length (txs (appended s s')) \<and> fst (txs (appended s s') ! i) \<noteq> page_select a page
          \<longrightarrow> 0 < i \<and> fst (txs (appended s s') ! (i - 1)) = page_select a page \<and> snd (txs (appended s s') ! (i - 1)) \<noteq> None)) \<and>
   (case scan_read_block tr a page reg n s of (r, s') \<Rightarrow>
      (\<forall>i. i < length (txs (appended s s')) \<and> snd (txs (appended s s') ! i) = None
            \<and> fails (take (Suc i) (txs (appended s s'))) < 2
          \<longrightarrow> Suc i < length (txs (appended s s')) \<and> fst (txs (appended s s') ! Suc i) = page_select a page) \<and>
      (\<forall>i. i < length (txs (appended s s')) \<and> fst (txs (appended s s') ! i) \<noteq> page_select a page
          \<longrightarrow> 0 < i \<and> fst (txs (appended s s') ! (i - 1)) = page_select a page \<and> snd (txs (appended s s') ! (i - 1)) \<noteq> None))"
proof (intro conjI)
  assume h: "0 \<le> page" "page \<le> 255" "0 \<le> reg" "reg \<le> 255"
  from run_caseD[OF vrm_write_loop_retry[OF h(2), of tr a payload 0 s]] h(1)
  show "(case vrm_write_block tr a page payload s of (r, s') \<Rightarrow>
      (\<forall>i. i < length (txs (appended s s')) \<and> snd (txs (appended s s') ! i) = None
            \<and> fails (take (Suc i) (txs (appended s s'))) < 4
          \<longrightarrow> Suc i < length (txs (appended s s')) \<and> fst (txs (appended s s') ! Suc i) = page_select a page) \<and>
      (\<forall>i. i < length (txs (appended s s')) \<and> fst (txs (appended s s') ! i) \<noteq> page_select a page
          \<longrightarrow> 0 < i \<and> fst (txs (appended s s') ! (i - 1)) = page_select a page \<and> snd (txs (appended s s') ! (i - 1)) \<noteq> None))"
    by (auto simp: vrm_write_block_def RETRY_RW_def split: prod.splits dest!: retry_post_restart)
  from run_caseD[OF vrm_read_loop_retry[OF h(2-4), of tr a n 0 s]] h(1)
  show "(case vrm_read_block tr a page reg n s of (r, s') \<Rightarrow>
      (\<forall>i. i < length (txs (appended s s')) \<and> snd (txs (appended s s') ! i) = None
            \<and> fails (take (Suc i) (txs (appended s s'))) < 4
          \<longrightarrow> Suc i < length (txs (appended s s')) \<and> fst (txs (appended s s') ! Suc i) = page_select a page) \<and>
      (\<forall>i. i < length (txs (appended s s')) \<and> fst (txs (appended s s') ! i) \<noteq> page_select a page
          \<longrightarrow> 0 < i \<and> fst (txs (appended s s') ! (i - 1)) = page_select a page \<and> snd (txs (appended s s') ! (i - 1)) \<noteq> None))"
    by (auto simp: vrm_read_block_def RETRY_RW_def split: prod.splits dest!: retry_post_restart)
  from run_caseD[OF scan_read_loop_retry[OF h(2-4), of tr a n 0 s]] h(1)
  show "(case scan_read_block tr a page reg n s of (r, s') \<Rightarrow>
      (\<forall>i. i < length (txs (appended s s')) \<and> snd (txs (appended s s') ! i) = None
            \<and> fails (take (Suc i) (txs (appended s s'))) < 2
          \<longrightarrow> Suc i < length (txs (appended s s')) \<and> fst (txs (appended s s') ! Suc i) = page_select a page) \<and>
      (\<forall>i. i < length (txs (appended s s')) \<and> fst (txs (appended s s') ! i) \<noteq> page_select a page
          \<longrightarrow> 0 < i \<and> fst (txs (appended s s') ! (i - 1)) = page_select a page \<and> snd (txs (appended s s') ! (i - 1)) \<noteq> None))"
    by (auto simp: scan_read_block_def RETRY_SCAN_def split: prod.splits dest!: retry_post_restart)
qed


theorem retry_restarts_at_page_select_witness:
  "(0::int) \<le> 0x20 \<and> (0x20::int) \<le> 255 \<and> (0::int) \<le> 0x73 \<and> (0x73::int) \<le> 255 \<and>
   txs (snd (vrm_write_block
      (failing (\<lambda>s c. c = WriteTx 0x58 [0x73, 0xFF, 0x00] \<and> length s < 2) (reg_dev (\<lambda>r. [])))
      0x58 0x20 [0x73, 0xFF, 0x00] []))
    = [(page_select 0x58 0x20, Some []), (WriteTx 0x58 [0x73, 0xFF, 0x00], None),
       (page_select 0x58 0x20, Some []), (WriteTx 0x58 [0x73, 0xFF, 0x00], Some [])] \<and>
   1 < length (txs (appended [] (snd (vrm_write_block
      (failing (\<lambda>s c. c = WriteTx 0x58 [0x73, 0xFF, 0x00] \<and> length s < 2) (reg_dev (\<lambda>r. [])))
      0x58 0x20 [0x73, 0xFF, 0x00] [])))) \<and>
   snd (txs (appended [] (snd (vrm_write_block
      (failing (\<lambda>s c. c = WriteTx 0x58 [0x73, 0xFF, 0x00] \<and> length s < 2) (reg_dev (\<lambda>r. [])))
      0x58 0x20 [0x73, 0xFF, 0x00] []))) ! 1) = None \<and>
   fails (take (Suc 1) (txs (appended [] (snd (vrm_write_block
      (failing (\<lambda>s c. c = WriteTx 0x58 [0x73, 0xFF, 0x00] \<and> length s < 2) (reg_dev (\<lambda>r. [])))
      0x58 0x20 [0x73, 0xFF, 0x00] []))))) < 4 \<and>
   Suc 1 < length (txs (appended [] (snd (vrm_write_block
      (failing (\<lambda>s c. c = WriteTx 0x58 [0x73, 0xFF, 0x00] \<and> length s < 2) (reg_dev (\<lambda>r. [])))
      0x58 0x20 [0x73, 0xFF, 0x00] [])))) \<and>
   fst (txs (appended [] (snd (vrm_write_block
      (failing (\<lambda>s c. c = WriteTx 0x58 [0x73, 0xFF, 0x00] \<and> length s < 2) (reg_dev (\<lambda>r. [])))
      0x58 0x20 [0x73, 0xFF, 0x00] []))) ! Suc 1) = page_select 0x58 0x20"
  using retry_restarts_at_page_select[where page="0x20" and reg="0x73" and a="0x58"
     and tr="failing (\<lambda>s c. c = WriteTx 0x58 [0x73, 0xFF, 0x00] \<and> length s < 2) (reg_dev (\<lambda>r. []))"
     and payload="[0x73, 0xFF, 0x00]" and s="[]" and n=2]
  by (simp add: eval_simps)


section \<open>Pages used by the MP2955A and TPS53679 procedures\<close>

lemma paged_from_append:
  "paged_from ps b xs \<Longrightarrow> paged_from ps False ys \<Longrightarrow> paged_from ps b (xs @ ys)"
  by (induction xs arbitrary: b) (auto intro: paged_from_False)

lemma rd_post_paged: "rd_post a p reg n r new \<Longrightarrow> paged_from (page_select a p) False (txs new)"
  by (simp add: rd_post_def)

lemma wr_post_paged: "wr_post a p pl r new \<Longrightarrow> paged_from (page_select a p) False (txs new)"
  by (simp add: wr_post_def)

lemma txs_set: "((c, x) \<in> set (txs es)) = (Tx c x \<in> set es)"
  by (induction es rule: txs.induct) auto

lemma rd_post_calls:
  "rd_post a p reg n r new \<Longrightarrow> page_select a p \<in> S \<Longrightarrow> ReadTx a reg n \<in> S \<Longrightarrow> fst ` set (txs new) \<subseteq> S"
  by (auto simp: txs_set dest: rd_post_tx)

lemma wr_post_calls:
  "wr_post a p pl r new \<Longrightarrow> page_select a p \<in> S \<Longrightarrow> WriteTx a pl \<in> S \<Longrightarrow> fst ` set (txs new) \<subseteq> S"
  by (auto simp: txs_set dest: wr_post_tx)

lemmas paged_simps = paged_from_append rd_post_paged wr_post_paged
lemmas calls_simps = rd_post_calls wr_post_calls image_Un

lemma mp_page_zero:
  "run (mp2955a_set_icc_max tr a) s (\<lambda>r new.
     paged_from (page_select a 0) False (txs new) \<and>
     fst ` set (txs new) \<subseteq> {page_select a 0, ReadTx a 0xBF 2, ReadTx a 0xEF 1, WriteTx a [0xEF, 0xFF], WriteTx a [0x15]})"
  unfolding mp2955a_set_icc_max_def
  by (rule run_rules | (simp add: paged_simps calls_simps; fail)
      | (intro conjI impI allI) | clarsimp)+

lemma tps_page_zero:
  "run (tps53679_set_icc_max tr a) s (\<lambda>r new.
     paged_from (page_select a 0) False (txs new) \<and>
     fst ` set (txs new) \<subseteq> {page_select a 0, ReadTx a 0xAD 2, ReadTx a 0xDA 2, WriteTx a [0xDA, 0xFF, 0x00], WriteTx a [0x11]})"
  unfolding tps53679_set_icc_max_def
  by (rule run_rules | (simp add: paged_simps calls_simps; fail)
      | (intro conjI impI allI) | clarsimp)+

lemmas proc_simps = pxe1610_set_icc_max_def pxe1610_modify_def pxe1610_commit_def
  mp2955a_set_icc_max_def tps53679_set_icc_max_def remain_of_def
  pxe_regs_def mp_regs_def tps_regs_def

lemma paged_index:
  assumes "paged_from ps False t"
  shows "\<forall>i. i < length t \<and> fst (t ! i) \<noteq> ps
            \<longrightarrow> 0 < i \<and> fst (t ! (i - 1)) = ps \<and> snd (t ! (i - 1)) \<noteq> None"
proof (intro allI impI)
  fix i assume h: "i < length t \<and> fst (t ! i) \<noteq> ps"
  then have "if i = 0 then False else fst (t ! (i - 1)) = ps \<and> snd (t ! (i - 1)) \<noteq> None"
    using paged_from_nth[OF assms, of i] by simp
  then show "0 < i \<and> fst (t ! (i - 1)) = ps \<and> snd (t ! (i - 1)) \<noteq> None"
    by (simp split: if_splits)
qed

text \<open>
  C3 as stated fails: both procedures pass page \<open>0x00\<close>, which is not negative, so
  every attempt starts with the page select \<^verbatim>\<open>[0x00, 0x00]\<close>. On a bus where nothing
  answers, that page select is the transaction that fails.
\<close>

theorem page_zero_is_selected:
  "(WriteTx 0x60 [0x00, 0x00], None) \<in> set (txs (snd (mp2955a_set_icc_max dead_bus 0x60 []))) \<and>
   (WriteTx 0x70 [0x00, 0x00], None) \<in> set (txs (snd (tps53679_set_icc_max dead_bus 0x70 [])))"
  by (simp add: eval_simps proc_simps)


text \<open>
  C3, amended. The MP2955A and TPS53679/TPS53678 procedures perform every register read
  and write on page \<open>0x00\<close>: for every address and every transport behaviour, each
  transaction other than the page select \<^verbatim>\<open>[0x00, 0x00]\<close> comes right after a successful
  page select \<^verbatim>\<open>[0x00, 0x00]\<close>, and the only transactions are that page select, the
  identification and ICC_MAX reads, the value write and the store trigger, so no other
  page is ever selected.
\<close>

theorem mp_tps_use_page_zero:
  "(case mp2955a_set_icc_max tr a s of (r, s') \<Rightarrow>
      (\<forall>i. i < length (txs (appended s s')) \<and> fst (txs (appended s s') ! i) \<noteq> WriteTx a [0x00, 0x00]
          \<longrightarrow> 0 < i \<and> fst (txs (appended s s') ! (i - 1)) = WriteTx a [0x00, 0x00]
                   \<and> snd (txs (appended s s') ! (i - 1)) \<noteq> None) \<and>
      fst ` set (txs (appended s s')) \<subseteq>
        {WriteTx a [0x00, 0x00], ReadTx a 0xBF 2, ReadTx a 0xEF 1, WriteTx a [0xEF, 0xFF], WriteTx a [0x15]}) \<and>
   (case tps53679_set_icc_max tr a s of (r, s') \<Rightarrow>
      (\<forall>i. i < length (txs (appended s s')) \<and> fst (txs (appended s s') ! i) \<noteq> WriteTx a [0x00, 0x00]
          \<longrightarrow> 0 < i \<and> fst (txs (appended s s') ! (i - 1)) = WriteTx a [0x00, 0x00]
                   \<and> snd (txs (appended s s') ! (i - 1)) \<noteq> None) \<and>
      fst ` set (txs (appended s s')) \<subseteq>
        {WriteTx a [0x00, 0x00], ReadTx a 0xAD 2, ReadTx a 0xDA 2, WriteTx a [0xDA, 0xFF, 0x00], WriteTx a [0x11]})"
proof -
  have ps: "page_select a 0 = WriteTx a [0x00, 0x00]" by (simp add: page_select_def)
  show ?thesis
    using run_caseD[OF mp_page_zero[of tr a s]] run_caseD[OF tps_page_zero[of tr a s]]
    by (auto simp: ps split: prod.splits dest!: paged_index)
qed



theorem mp_tps_use_page_zero_witness:
  "(1::nat) < length (txs (appended [] (snd (mp2955a_set_icc_max (reg_dev (mp_regs [0x80])) 0x60 [])))) \<and>
   fst (txs (appended [] (snd (mp2955a_set_icc_max (reg_dev (mp_regs [0x80])) 0x60 []))) ! 1)
     \<noteq> WriteTx 0x60 [0x00, 0x00] \<and>
   fst (txs (appended [] (snd (mp2955a_set_icc_max (reg_dev (mp_regs [0x80])) 0x60 []))) ! (1 - 1))
     = WriteTx 0x60 [0x00, 0x00]"
proof -
  let ?L = "[Tx (WriteTx 96 [0, 0]) (Some []), Tx (ReadTx 96 191 2) (Some [85, 37]),
   Print (MsgReadBlock 0 191 2 (Some [85, 37])), Print MsgMpFound,
   Tx (WriteTx 96 [0, 0]) (Some []), Tx (ReadTx 96 239 1) (Some [128]),
   Print (MsgReadBlock 0 239 1 (Some [128])),
   Tx (WriteTx 96 [0, 0]) (Some []), Tx (WriteTx 96 [239, 255]) (Some []),
   Print (MsgWriteBlock 0 [239, 255] True),
   Tx (WriteTx 96 [0, 0]) (Some []), Tx (ReadTx 96 239 1) (Some [128]),
   Print (MsgReadBack 0 239 1 (Some [128])),
   Tx (WriteTx 96 [0, 0]) (Some []), Tx (WriteTx 96 [21]) (Some []),
   Print (MsgWriteBlock 0 [21] True), Sleep 1, Print MsgMpSuccessful]"
  have e: "mp2955a_set_icc_max (reg_dev (mp_regs [0x80])) 0x60 [] = (Ret 0, ?L)"
    by (simp add: eval_simps proc_simps)
  have h: "(1::nat) < length (txs (appended [] ?L))"
     "fst (txs (appended [] ?L) ! 1) \<noteq> WriteTx 0x60 [0x00, 0x00]"
    by (simp_all add: appended_def)
  have "\<forall>i. i < length (txs (appended [] ?L)) \<and> fst (txs (appended [] ?L) ! i) \<noteq> WriteTx 0x60 [0x00, 0x00]
          \<longrightarrow> 0 < i \<and> fst (txs (appended [] ?L) ! (i - 1)) = WriteTx 0x60 [0x00, 0x00]
                   \<and> snd (txs (appended [] ?L) ! (i - 1)) \<noteq> None"
    using mp_tps_use_page_zero[where tr="reg_dev (mp_regs [0x80])" and a="0x60" and s="[]"]
    unfolding e by simp
  with h have "fst (txs (appended [] ?L) ! (1 - 1)) = WriteTx 0x60 [0x00, 0x00]" by blast
  with h show ?thesis unfolding e by simp
qed


section \<open>Skipping a device whose ICC_MAX is already 0xFF\<close>

lemma ok_read_append [simp]:
  "ok_read reg n (xs @ ys) = (case ok_read reg n xs of Some d \<Rightarrow> Some d | None \<Rightarrow> ok_read reg n ys)"
  by (induction reg n xs rule: ok_read.induct) simp_all

lemma ok_read_None:
  "(\<And>a reg' n' d. Tx (ReadTx a reg' n') (Some d) \<notin> set es) \<Longrightarrow> ok_read reg n es = None"
  by (induction reg n es rule: ok_read.induct) auto

lemma no_ok_reads:
  assumes "\<forall>e\<in>set es. (\<exists>k. e = Print (MsgRetry k)) \<or> (\<exists>x. e = Tx (page_select a p) x)
                    \<or> (\<exists>x. e = Tx (ReadTx a reg n) x)"
    and "\<forall>d'. Tx (ReadTx a reg n) (Some d') \<notin> set es"
  shows "Tx (ReadTx a' r' m') (Some d') \<notin> set es"
proof
  assume i: "Tx (ReadTx a' r' m') (Some d') \<in> set es"
  with assms(1) have "(\<exists>k. Tx (ReadTx a' r' m') (Some d') = Print (MsgRetry k))
      \<or> (\<exists>x. Tx (ReadTx a' r' m') (Some d') = Tx (page_select a p) x)
      \<or> (\<exists>x. Tx (ReadTx a' r' m') (Some d') = Tx (ReadTx a reg n) x)" by blast
  then have "ReadTx a' r' m' = ReadTx a reg n" by (auto simp: page_select_def)
  with i assms(2) show False by simp
qed

lemma rd_post_ok_read:
  assumes "rd_post a p reg n (Ret (rc, d)) new"
  shows "ok_read reg' n' new = (if reg' = reg \<and> n' = n \<and> rc = 0 then Some d else None)"
proof -
  have ps: "\<And>x a' r' m' d'. Tx (page_select a p) x \<noteq> Tx (ReadTx a' r' m') (Some d')"
    by (simp add: page_select_def)
  from assms have al: "\<forall>e\<in>set new. (\<exists>k. e = Print (MsgRetry k)) \<or> (\<exists>x. e = Tx (page_select a p) x)
                    \<or> (\<exists>x. e = Tx (ReadTx a reg n) x)"
    and re: "(\<exists>d0 pre. Ret (rc, d) = Ret (0::int, d0) \<and> length d0 = n \<and> new = pre @ [Tx (ReadTx a reg n) (Some d0)]
          \<and> (\<forall>d'. Tx (ReadTx a reg n) (Some d') \<notin> set pre))
      \<or> (Ret (rc, d) = Ret (-1::int, []) \<and> (\<forall>d'. Tx (ReadTx a reg n) (Some d') \<notin> set new))"
    by (simp_all add: rd_post_def)
  from re show ?thesis
  proof
    assume "\<exists>d0 pre. Ret (rc, d) = Ret (0::int, d0) \<and> length d0 = n \<and> new = pre @ [Tx (ReadTx a reg n) (Some d0)]
          \<and> (\<forall>d'. Tx (ReadTx a reg n) (Some d') \<notin> set pre)"
    then obtain pre where h: "rc = 0" "new = pre @ [Tx (ReadTx a reg n) (Some d)]"
      "\<forall>d'. Tx (ReadTx a reg n) (Some d') \<notin> set pre" by auto
    have "ok_read reg' n' pre = None"
    proof (rule ok_read_None)
      fix a' r' m' d' show "Tx (ReadTx a' r' m') (Some d') \<notin> set pre"
        using al h(2,3) by (intro no_ok_reads[where a=a and p=p and reg=reg and n=n]) simp_all
    qed
    then show ?thesis using h(1,2) by auto
  next
    assume h: "Ret (rc, d) = Ret (-1::int, []) \<and> (\<forall>d'. Tx (ReadTx a reg n) (Some d') \<notin> set new)"
    have "ok_read reg' n' new = None"
    proof (rule ok_read_None)
      fix a' r' m' d' show "Tx (ReadTx a' r' m') (Some d') \<notin> set new"
        using al h by (intro no_ok_reads[where a=a and p=p and reg=reg and n=n]) simp_all
    qed
    then show ?thesis using h by simp
  qed
qed

lemma wr_post_ok_read:
  assumes "wr_post a p pl r new"
  shows "ok_read reg n new = None"
proof (rule ok_read_None)
  fix a' r' m' d' show "Tx (ReadTx a' r' m') (Some d') \<notin> set new"
    using assms by (auto simp: wr_post_def page_select_def)
qed

lemma rd_post_last:
  assumes "rd_post a p reg n (Ret (0, d)) new"
  shows "txs new \<noteq> []" and "last (txs new) = (ReadTx a reg n, Some d)" and "new \<noteq> []"
  using assms by (auto simp: rd_post_def)

lemmas okread_simps = rd_post_ok_read wr_post_ok_read rd_post_last

lemma pxe_skip:
  "run (pxe1610_set_icc_max tr a) s (\<lambda>r new.
     \<forall>d. ok_read 0x73 2 new = Some d \<and> d ! 0 = 0xFF \<longrightarrow>
       r = Ret 0 \<and> last new = Print MsgIccSkipped \<and> last (txs new) = (ReadTx a 0x73 2, Some d) \<and>
       fst ` set (txs new) \<subseteq> {page_select a 0x00, ReadTx a 0xFD 1, page_select a 0x4F, ReadTx a 0x1A 1,
          ReadTx a 0x32 2, page_select a 0x3F, WriteTx a [0x27, 0x7C, 0xB3], page_select a 0x20, ReadTx a 0x73 2})"
  unfolding pxe1610_set_icc_max_def pxe1610_modify_def pxe1610_commit_def
  by (rule run_rules | (simp add: okread_simps calls_simps; fail)
      | (intro conjI impI allI) | clarsimp simp: okread_simps)+

lemma mp_skip:
  "run (mp2955a_set_icc_max tr a) s (\<lambda>r new.
     \<forall>d. ok_read 0xEF 1 new = Some d \<and> d ! 0 = 0xFF \<longrightarrow>
       r = Ret 0 \<and> last new = Print MsgIccAlready \<and> last (txs new) = (ReadTx a 0xEF 1, Some d) \<and>
       fst ` set (txs new) \<subseteq> {page_select a 0x00, ReadTx a 0xBF 2, ReadTx a 0xEF 1})"
  unfolding mp2955a_set_icc_max_def
  by (rule run_rules | (simp add: okread_simps calls_simps; fail)
      | (intro conjI impI allI) | clarsimp simp: okread_simps)+

lemma tps_skip:
  "run (tps53679_set_icc_max tr a) s (\<lambda>r new.
     \<forall>d. ok_read 0xDA 2 new = Some d \<and> d ! 0 = 0xFF \<longrightarrow>
       r = Ret 0 \<and> last new = Print MsgIccAlready \<and> last (txs new) = (ReadTx a 0xDA 2, Some d) \<and>
       fst ` set (txs new) \<subseteq> {page_select a 0x00, ReadTx a 0xAD 2, ReadTx a 0xDA 2})"
  unfolding tps53679_set_icc_max_def
  by (rule run_rules | (simp add: okread_simps calls_simps; fail)
      | (intro conjI impI allI) | clarsimp simp: okread_simps)+

lemma pxe_run_icc_ff:
  "pxe1610_set_icc_max (reg_dev (pxe_regs [0xFF, 0x00])) 0x58 [] =
   (Ret 0,
  [Tx (WriteTx 88 [0, 0]) (Some []), Tx (ReadTx 88 253 1) (Some [179]),
   Print (MsgReadBlock 0 253 1 (Some [179])),
   Tx (WriteTx 88 [0, 79]) (Some []), Tx (ReadTx 88 26 1) (Some [0]),
   Print (MsgReadBlock 79 26 1 (Some [0])),
   Tx (WriteTx 88 [0, 79]) (Some []), Tx (ReadTx 88 50 2) (Some [21, 4]),
   Print (MsgReadBlock 79 50 2 (Some [21, 4])), Print MsgPxeFound,
   Tx (WriteTx 88 [0, 63]) (Some []),
   Tx (WriteTx 88 [39, 124, 179]) (Some []), Print (MsgSmbPassword True),
   Tx (WriteTx 88 [0, 32]) (Some []), Tx (ReadTx 88 115 2) (Some [255, 0]),
   Print (MsgIccMax [255, 0]), Print MsgIccSkipped])"
  by (simp add: eval_simps proc_simps)

text \<open>
  C1 as stated fails: the procedures do write before they read ICC_MAX. The PXE1610C
  procedure sends the SMB password \<^verbatim>\<open>[0x27, 0x7C, 0xB3]\<close> to page 0x3F before the read
  (and every read is preceded by a page-select write). With a device whose ICC_MAX reads
  \<^verbatim>\<open>FF 00\<close> the procedure reports the skip and returns 0, and the password write is in
  its trace.
\<close>

theorem pxe_skip_follows_unlock_write:
  "ok_read 0x73 2 (snd (pxe1610_set_icc_max (reg_dev (pxe_regs [0xFF, 0x00])) 0x58 [])) = Some [0xFF, 0x00] \<and>
   fst (pxe1610_set_icc_max (reg_dev (pxe_regs [0xFF, 0x00])) 0x58 []) = Ret 0 \<and>
   last (snd (pxe1610_set_icc_max (reg_dev (pxe_regs [0xFF, 0x00])) 0x58 [])) = Print MsgIccSkipped \<and>
   (WriteTx 0x58 [0x27, 0x7C, 0xB3], Some []) \<in> set (txs (snd (pxe1610_set_icc_max (reg_dev (pxe_regs [0xFF, 0x00])) 0x58 [])))"
  unfolding pxe_run_icc_ff by simp


text \<open>
  C1, amended. For every chip family, address and transport behaviour: if the ICC_MAX
  read (the first successful read of register 0x73, 0xEF or 0xDA) returns 0xFF in byte
  0, the procedure returns 0, its last printed line is the skip message, that read is
  its last transaction, and the only write transactions of the whole run are the page
  selects before each read and, for PXE1610C, the SMB-password write
  \<^verbatim>\<open>[0x27, 0x7C, 0xB3]\<close> that precedes the ICC_MAX read. No value write, NVM password or
  store trigger is issued.
\<close>

theorem skip_when_icc_max_is_ff:
  "(case pxe1610_set_icc_max tr a s of (r, s') \<Rightarrow>
      (\<forall>d. ok_read 0x73 2 (appended s s') = Some d \<and> d ! 0 = 0xFF \<longrightarrow>
         r = Ret 0 \<and> last (appended s s') = Print MsgIccSkipped \<and>
         last (txs (appended s s')) = (ReadTx a 0x73 2, Some d) \<and>
         fst ` set (txs (appended s s')) \<subseteq> {WriteTx a [0x00, 0x00], ReadTx a 0xFD 1, WriteTx a [0x00, 0x4F], ReadTx a 0x1A 1,
          ReadTx a 0x32 2, WriteTx a [0x00, 0x3F], WriteTx a [0x27, 0x7C, 0xB3], WriteTx a [0x00, 0x20],
          ReadTx a 0x73 2})) \<and>
   (case mp2955a_set_icc_max tr a s of (r, s') \<Rightarrow>
      (\<forall>d. ok_read 0xEF 1 (appended s s') = Some d \<and> d ! 0 = 0xFF \<longrightarrow>
         r = Ret 0 \<and> last (appended s s') = Print MsgIccAlready \<and>
         last (txs (appended s s')) = (ReadTx a 0xEF 1, Some d) \<and>
         fst ` set (txs (appended s s')) \<subseteq> {WriteTx a [0x00, 0x00], ReadTx a 0xBF 2, ReadTx a 0xEF 1})) \<and>
   (case tps53679_set_icc_max tr a s of (r, s') \<Rightarrow>
      (\<forall>d. ok_read 0xDA 2 (appended s s') = Some d \<and> d ! 0 = 0xFF \<longrightarrow>
         r = Ret 0 \<and> last (appended s s') = Print MsgIccAlready \<and>
         last (txs (appended s s')) = (ReadTx a 0xDA 2, Some d) \<and>
         fst ` set (txs (appended s s')) \<subseteq> {WriteTx a [0x00, 0x00], ReadTx a 0xAD 2, ReadTx a 0xDA 2}))"
proof (intro conjI)
  show "(case pxe1610_set_icc_max tr a s of (r, s') \<Rightarrow>
      (\<forall>d. ok_read 0x73 2 (appended s s') = Some d \<and> d ! 0 = 0xFF \<longrightarrow>
         r = Ret 0 \<and> last (appended s s') = Print MsgIccSkipped \<and>
         last (txs (appended s s')) = (ReadTx a 0x73 2, Some d) \<and>
         fst ` set (txs (appended s s')) \<subseteq> {WriteTx a [0x00, 0x00], ReadTx a 0xFD 1, WriteTx a [0x00, 0x4F], ReadTx a 0x1A 1,
          ReadTx a 0x32 2, WriteTx a [0x00, 0x3F], WriteTx a [0x27, 0x7C, 0xB3], WriteTx a [0x00, 0x20],
          ReadTx a 0x73 2}))"
    using run_caseD[OF pxe_skip[of tr a s]] by (auto simp: page_select_def split: prod.splits)
  show "(case mp2955a_set_icc_max tr a s of (r, s') \<Rightarrow>
      (\<forall>d. ok_read 0xEF 1 (appended s s') = Some d \<and> d ! 0 = 0xFF \<longrightarrow>
         r = Ret 0 \<and> last (appended s s') = Print MsgIccAlready \<and>
         last (txs (appended s s')) = (ReadTx a 0xEF 1, Some d) \<and>
         fst ` set (txs (appended s s')) \<subseteq> {WriteTx a [0x00, 0x00], ReadTx a 0xBF 2, ReadTx a 0xEF 1}))"
    using run_caseD[OF mp_skip[of tr a s]] by (auto simp: page_select_def split: prod.splits)
  show "(case tps53679_set_icc_max tr a s of (r, s') \<Rightarrow>
      (\<forall>d. ok_read 0xDA 2 (appended s s') = Some d \<and> d ! 0 = 0xFF \<longrightarrow>
         r = Ret 0 \<and> last (appended s s') = Print MsgIccAlready \<and>
         last (txs (appended s s')) = (ReadTx a 0xDA 2, Some d) \<and>
         fst ` set (txs (appended s s')) \<subseteq> {WriteTx a [0x00, 0x00], ReadTx a 0xAD 2, ReadTx a 0xDA 2}))"
    using run_caseD[OF tps_skip[of tr a s]] by (auto simp: page_select_def split: prod.splits)
qed


theorem skip_when_icc_max_is_ff_witness:
  "ok_read 0x73 2 (appended [] (snd (pxe1610_set_icc_max (reg_dev (pxe_regs [0xFF, 0x00])) 0x58 []))) = Some [0xFF, 0x00] \<and>
   [0xFF, 0x00 :: byte] ! 0 = 0xFF \<and>
   fst (pxe1610_set_icc_max (reg_dev (pxe_regs [0xFF, 0x00])) 0x58 []) = Ret 0 \<and>
   last (appended [] (snd (pxe1610_set_icc_max (reg_dev (pxe_regs [0xFF, 0x00])) 0x58 []))) = Print MsgIccSkipped"
proof -
  have h: "ok_read 0x73 2 (appended [] (snd (pxe1610_set_icc_max (reg_dev (pxe_regs [0xFF, 0x00])) 0x58 []))) = Some [0xFF, 0x00]"
    "[0xFF, 0x00 :: byte] ! 0 = 0xFF"
    unfolding pxe_run_icc_ff by (simp_all add: appended_def)
  from skip_when_icc_max_is_ff[where tr="reg_dev (pxe_regs [0xFF, 0x00])" and a="0x58" and s="[]", THEN conjunct1]
  have "\<forall>d. ok_read 0x73 2 (appended [] (snd (pxe1610_set_icc_max (reg_dev (pxe_regs [0xFF, 0x00])) 0x58 []))) = Some d \<and> d ! 0 = 0xFF \<longrightarrow>
         fst (pxe1610_set_icc_max (reg_dev (pxe_regs [0xFF, 0x00])) 0x58 []) = Ret 0 \<and>
         last (appended [] (snd (pxe1610_set_icc_max (reg_dev (pxe_regs [0xFF, 0x00])) 0x58 []))) = Print MsgIccSkipped"
    by (auto split: prod.splits)
  with h show ?thesis by blast
qed


section \<open>Paged operations as blocks of transactions\<close>

lemma op_post_zero: "op_post ps c 0 None []"
  by (simp add: op_post_def)

lemma op_post_ok: "c \<noteq> ps \<Longrightarrow> op_post ps c (Suc m) (Some d) [(ps, Some x), (c, Some d)]"
  by (simp add: op_post_def)

lemma op_post_fail:
  assumes "c \<noteq> ps" "op_post ps c m res t" "A = [(ps, None)] \<or> A = [(ps, Some x), (c, None)]"
  shows "op_post ps c (Suc m) res (A @ t)"
proof -
  from assms(2) have tk: "\<And>rest. take_op m ps c (t @ rest) = Some (res, rest)"
    and sub: "fst ` set t \<subseteq> {ps, c}"
    and rs: "(case res of Some d \<Rightarrow> t \<noteq> [] \<and> last t = (c, Some d)
                 | None \<Rightarrow> (\<forall>d. (c, Some d) \<notin> set t))"
    by (simp_all add: op_post_def)
  have 1: "\<And>rest. take_op (Suc m) ps c ((A @ t) @ rest) = Some (res, rest)"
    using assms(3) tk by auto
  have 2: "fst ` set (A @ t) \<subseteq> {ps, c}" using assms(3) sub by auto
  have 3: "A @ t \<noteq> [] \<and> fst (hd (A @ t)) = ps" using assms(3) by auto
  have 4: "(case res of Some d \<Rightarrow> A @ t \<noteq> [] \<and> last (A @ t) = (c, Some d)
                 | None \<Rightarrow> (\<forall>d. (c, Some d) \<notin> set (A @ t)))"
    using assms(1,3) rs by (auto split: option.splits)
  from 1 2 3 4 show ?thesis unfolding op_post_def by blast
qed

lemma nat_retry: "tries < k \<Longrightarrow> nat (k - tries) = Suc (nat (k - (tries + 1)))" for k :: int
  by simp

lemma read_attempt_txs:
  assumes "0 \<le> p" "p \<le> 255" "0 \<le> reg" "reg \<le> 255"
  shows "(\<exists>A x. (A = [(page_select a p, None)] \<or> A = [(page_select a p, Some x), (ReadTx a reg n, None)]) \<and>
            (\<exists>new. read_attempt tr a p reg n s = (Ret None, s @ new) \<and> txs new = A)) \<or>
         (\<exists>d x new. read_attempt tr a p reg n s = (Ret (Some d), s @ new) \<and>
               txs new = [(page_select a p, Some x), (ReadTx a reg n, Some d)])"
  using read_attempt_cases[OF assms, of tr a n s] by fastforce

lemma write_attempt_txs:
  assumes "0 \<le> p" "p \<le> 255"
  shows "(\<exists>A x. (A = [(page_select a p, None)] \<or> A = [(page_select a p, Some x), (WriteTx a pl, None)]) \<and>
            (\<exists>new. write_attempt tr a p pl s = (Ret (-1), s @ new) \<and> txs new = A)) \<or>
         (\<exists>x new. write_attempt tr a p pl s = (Ret 0, s @ new) \<and>
               txs new = [(page_select a p, Some x), (WriteTx a pl, Some [])])"
  using write_attempt_cases[OF assms, of tr a pl s] by fastforce

lemma vrm_read_loop_op:
  assumes "0 \<le> p" "p \<le> 255" "0 \<le> reg" "reg \<le> 255"
  shows "run (vrm_read_loop tr a p reg n tries) s
           (\<lambda>r new. \<exists>rc d. r = Ret (rc, d) \<and>
              op_post (page_select a p) (ReadTx a reg n) (nat (RETRY_RW - tries))
                 (if rc = 0 then Some d else None) (txs new))"
  using assms
proof (induction tr a p reg n tries s rule: vrm_read_loop.induct)
  case (1 tr a p reg n tries s)
  define P where "P = (if tries > 0 then [Print (MsgRetry tries)] else [])"
  have s0: "(if tries > 0 then s @ [Print (MsgRetry tries)] else s) = s @ P" by (simp add: P_def)
  have tP: "txs P = []" by (simp add: P_def)
  have ne: "ReadTx a reg n \<noteq> page_select a p" by (simp add: page_select_def)
  show ?case
  proof (cases "tries < RETRY_RW")
    case False
    then have "vrm_read_loop tr a p reg n tries s = (Ret (-1, []), s @ [])" by (subst vrm_read_loop.simps) simp
    then show ?thesis using False by (intro runI[where r="Ret (-1, [])" and new="[]"]) (simp_all add: op_post_zero)
  next
    case True
    from read_attempt_txs[OF "1.prems", of a n tr "s @ P"]
    consider (fail) A x new where "A = [(page_select a p, None)] \<or> A = [(page_select a p, Some x), (ReadTx a reg n, None)]"
        "read_attempt tr a p reg n (s @ P) = (Ret None, (s @ P) @ new)" "txs new = A"
      | (ok) d x new where "read_attempt tr a p reg n (s @ P) = (Ret (Some d), (s @ P) @ new)"
           "txs new = [(page_select a p, Some x), (ReadTx a reg n, Some d)]"
      by blast
    then show ?thesis
    proof cases
      case fail
      have "run (vrm_read_loop tr a p reg n (tries + 1)) ((s @ P) @ new)
           (\<lambda>r new. \<exists>rc d. r = Ret (rc, d) \<and>
              op_post (page_select a p) (ReadTx a reg n) (nat (RETRY_RW - (tries + 1)))
                 (if rc = 0 then Some d else None) (txs new))"
        by (rule "1.IH"[OF True _ refl refl "1.prems"]) (simp add: s0 fail(2))
      then obtain r new' where l: "vrm_read_loop tr a p reg n (tries + 1) ((s @ P) @ new) = (r, ((s @ P) @ new) @ new')"
        and q: "\<exists>rc d. r = Ret (rc, d) \<and>
              op_post (page_select a p) (ReadTx a reg n) (nat (RETRY_RW - (tries + 1)))
                 (if rc = 0 then Some d else None) (txs new')" by (rule runE)
      from q obtain rc d where r: "r = Ret (rc, d)" and
        o: "op_post (page_select a p) (ReadTx a reg n) (nat (RETRY_RW - (tries + 1))) (if rc = 0 then Some d else None) (txs new')"
        by blast
      have e: "vrm_read_loop tr a p reg n tries s = (r, s @ (P @ new @ new'))"
        using True fail(2) l s0 by (subst vrm_read_loop.simps) simp
      have "op_post (page_select a p) (ReadTx a reg n) (nat (RETRY_RW - tries)) (if rc = 0 then Some d else None) (txs (P @ new @ new'))"
        using op_post_fail[OF ne o fail(1)] by (simp add: tP fail(3) nat_retry[OF True])
      with e r show ?thesis by (intro runI[where r=r and new="P @ new @ new'"]) auto
    next
      case ok
      have e: "vrm_read_loop tr a p reg n tries s = (Ret (0, d), s @ (P @ new))"
        using True ok(1) s0 by (subst vrm_read_loop.simps) simp
      have "op_post (page_select a p) (ReadTx a reg n) (nat (RETRY_RW - tries)) (Some d) (txs (P @ new))"
        using op_post_ok[OF ne, of "nat (RETRY_RW - (tries + 1))" d x] by (simp add: tP ok(2) nat_retry[OF True])
      with e show ?thesis by (intro runI[where r="Ret (0, d)" and new="P @ new"]) auto
    qed
  qed
qed


lemma scan_read_loop_op:
  assumes "0 \<le> p" "p \<le> 255" "0 \<le> reg" "reg \<le> 255"
  shows "run (scan_read_loop tr a p reg n tries) s
           (\<lambda>r new. \<exists>rc d. r = Ret (rc, d) \<and>
              op_post (page_select a p) (ReadTx a reg n) (nat (RETRY_SCAN - tries))
                 (if rc = 0 then Some d else None) (txs new))"
  using assms
proof (induction tr a p reg n tries s rule: scan_read_loop.induct)
  case (1 tr a p reg n tries s)
  have ne: "ReadTx a reg n \<noteq> page_select a p" by (simp add: page_select_def)
  show ?case
  proof (cases "tries < RETRY_SCAN")
    case False
    then have "scan_read_loop tr a p reg n tries s = (Ret (-1, []), s @ [])" by (subst scan_read_loop.simps) simp
    then show ?thesis using False by (intro runI[where r="Ret (-1, [])" and new="[]"]) (simp_all add: op_post_zero)
  next
    case True
    from read_attempt_txs[OF "1.prems", of a n tr s]
    consider (fail) A x new where "A = [(page_select a p, None)] \<or> A = [(page_select a p, Some x), (ReadTx a reg n, None)]"
        "read_attempt tr a p reg n s = (Ret None, s @ new)" "txs new = A"
      | (ok) d x new where "read_attempt tr a p reg n s = (Ret (Some d), s @ new)"
           "txs new = [(page_select a p, Some x), (ReadTx a reg n, Some d)]"
      by blast
    then show ?thesis
    proof cases
      case fail
      have "run (scan_read_loop tr a p reg n (tries + 1)) (s @ new)
           (\<lambda>r new. \<exists>rc d. r = Ret (rc, d) \<and>
              op_post (page_select a p) (ReadTx a reg n) (nat (RETRY_SCAN - (tries + 1)))
                 (if rc = 0 then Some d else None) (txs new))"
        by (rule "1.IH"[OF True _ refl refl "1.prems"]) (simp add: fail(2))
      then obtain r new' where l: "scan_read_loop tr a p reg n (tries + 1) (s @ new) = (r, (s @ new) @ new')"
        and q: "\<exists>rc d. r = Ret (rc, d) \<and>
              op_post (page_select a p) (ReadTx a reg n) (nat (RETRY_SCAN - (tries + 1)))
                 (if rc = 0 then Some d else None) (txs new')" by (rule runE)
      from q obtain rc d where r: "r = Ret (rc, d)" and
        o: "op_post (page_select a p) (ReadTx a reg n) (nat (RETRY_SCAN - (tries + 1))) (if rc = 0 then Some d else None) (txs new')"
        by blast
      have e: "scan_read_loop tr a p reg n tries s = (r, s @ (new @ new'))"
        using True fail(2) l by (subst scan_read_loop.simps) simp
      have "op_post (page_select a p) (ReadTx a reg n) (nat (RETRY_SCAN - tries)) (if rc = 0 then Some d else None) (txs (new @ new'))"
        using op_post_fail[OF ne o fail(1)] by (simp add: fail(3) nat_retry[OF True])
      with e r show ?thesis by (intro runI[where r=r and new="new @ new'"]) auto
    next
      case ok
      have e: "scan_read_loop tr a p reg n tries s = (Ret (0, d), s @ new)"
        using True ok(1) by (subst scan_read_loop.simps) simp
      have "op_post (page_select a p) (ReadTx a reg n) (nat (RETRY_SCAN - tries)) (Some d) (txs new)"
        using op_post_ok[OF ne, of "nat (RETRY_SCAN - (tries + 1))" d x] by (simp add: ok(2) nat_retry[OF True])
      with e show ?thesis by (intro runI[where r="Ret (0, d)" and new="new"]) auto
    qed
  qed
qed

lemma vrm_write_loop_op:
  assumes "0 \<le> p" "p \<le> 255" "WriteTx a pl \<noteq> page_select a p"
  shows "run (vrm_write_loop tr a p pl tries) s
           (\<lambda>r new. \<exists>rc. r = Ret rc \<and>
              op_post (page_select a p) (WriteTx a pl) (nat (RETRY_RW - tries))
                 (if rc = 0 then Some [] else None) (txs new))"
  using assms
proof (induction tr a p pl tries s rule: vrm_write_loop.induct)
  case (1 tr a p pl tries s)
  define P where "P = (if tries > 0 then [Print (MsgTry tries)] else [])"
  have s0: "(if tries > 0 then s @ [Print (MsgTry tries)] else s) = s @ P" by (simp add: P_def)
  have tP: "txs P = []" by (simp add: P_def)
  note ne = "1.prems"(3)
  show ?case
  proof (cases "tries < RETRY_RW")
    case False
    then have "vrm_write_loop tr a p pl tries s = (Ret (-1), s @ [])" by (subst vrm_write_loop.simps) simp
    then show ?thesis using False by (intro runI[where r="Ret (-1)" and new="[]"]) (simp_all add: op_post_zero)
  next
    case True
    from write_attempt_txs[OF "1.prems"(1,2), of a pl tr "s @ P"]
    consider (fail) A x new where "A = [(page_select a p, None)] \<or> A = [(page_select a p, Some x), (WriteTx a pl, None)]"
        "write_attempt tr a p pl (s @ P) = (Ret (-1), (s @ P) @ new)" "txs new = A"
      | (ok) x new where "write_attempt tr a p pl (s @ P) = (Ret 0, (s @ P) @ new)"
           "txs new = [(page_select a p, Some x), (WriteTx a pl, Some [])]"
      by blast
    then show ?thesis
    proof cases
      case fail
      have e0: "(Ret (-1), (s @ P) @ new) = write_attempt tr a p pl (if tries > 0 then s @ [Print (MsgTry tries)] else s)"
        by (simp add: s0 fail(2))
      have "run (vrm_write_loop tr a p pl (tries + 1)) ((s @ P) @ new)
           (\<lambda>r new. \<exists>rc. r = Ret rc \<and>
              op_post (page_select a p) (WriteTx a pl) (nat (RETRY_RW - (tries + 1)))
                 (if rc = 0 then Some [] else None) (txs new))"
        by (rule "1.IH"[OF True e0 refl _ "1.prems"]) simp
      then obtain r new' where l: "vrm_write_loop tr a p pl (tries + 1) ((s @ P) @ new) = (r, ((s @ P) @ new) @ new')"
        and q: "\<exists>rc. r = Ret rc \<and>
              op_post (page_select a p) (WriteTx a pl) (nat (RETRY_RW - (tries + 1)))
                 (if rc = 0 then Some [] else None) (txs new')" by (rule runE)
      from q obtain rc where r: "r = Ret rc" and
        o: "op_post (page_select a p) (WriteTx a pl) (nat (RETRY_RW - (tries + 1))) (if rc = 0 then Some [] else None) (txs new')"
        by blast
      have e: "vrm_write_loop tr a p pl tries s = (r, s @ (P @ new @ new'))"
        using True fail(2) l s0 by (subst vrm_write_loop.simps) simp
      have "op_post (page_select a p) (WriteTx a pl) (nat (RETRY_RW - tries)) (if rc = 0 then Some [] else None) (txs (P @ new @ new'))"
        using op_post_fail[OF ne o fail(1)] by (simp add: tP fail(3) nat_retry[OF True])
      with e r show ?thesis by (intro runI[where r=r and new="P @ new @ new'"]) auto
    next
      case ok
      have e: "vrm_write_loop tr a p pl tries s = (Ret 0, s @ (P @ new))"
        using True ok(1) s0 by (subst vrm_write_loop.simps) simp
      have "op_post (page_select a p) (WriteTx a pl) (nat (RETRY_RW - tries)) (Some []) (txs (P @ new))"
        using op_post_ok[OF ne, of "nat (RETRY_RW - (tries + 1))" "[]" x] by (simp add: tP ok(2) nat_retry[OF True])
      with e show ?thesis by (intro runI[where r="Ret 0" and new="P @ new"]) auto
    qed
  qed
qed

lemma take_op_None_last:
  "take_op n ps c t = Some (None, []) \<Longrightarrow> t \<noteq> [] \<Longrightarrow> snd (last t) = None"
  by (induction n ps c t rule: take_op.induct) (auto split: if_splits)

lemma succeeded_simps [simp]:
  "succeeded c [] = False"
  "succeeded c (xs @ ys) = (succeeded c xs \<or> succeeded c ys)"
  "succeeded c (Print m # es) = succeeded c es"
  "succeeded c (Sleep k # es) = succeeded c es"
  "succeeded c (Tx c' x # es) = (c' = c \<and> x \<noteq> None \<or> succeeded c es)"
  by (auto simp: succeeded_def image_iff)

lemma attempted_simps [simp]:
  "attempted c [] = False"
  "attempted c (xs @ ys) = (attempted c xs \<or> attempted c ys)"
  "attempted c (Print m # es) = attempted c es"
  "attempted c (Sleep k # es) = attempted c es"
  "attempted c (Tx c' x # es) = (c' = c \<or> attempted c es)"
  by (auto simp: attempted_def image_iff)

lemma ends_ok_simps [simp]:
  "ends_ok c [] = False"
  "ends_ok c (xs @ ys) = (if txs ys = [] then ends_ok c xs else ends_ok c ys)"
  "ends_ok c (Print m # es) = ends_ok c es"
  "ends_ok c (Sleep k # es) = ends_ok c es"
  "ends_ok c (Tx c' x # es) = (if txs es = [] then c' = c \<and> x \<noteq> None else ends_ok c es)"
  by (auto simp: ends_ok_def)

lemma opr_txs: "opr k ps c res new \<Longrightarrow> (txs new = []) = False"
  by (simp add: opr_def op_post_def)

lemma opr_succeeded:
  assumes "opr k ps c res new" "c' \<noteq> ps"
  shows "succeeded c' new = (c' = c \<and> res \<noteq> None)"
proof -
  from assms(1) have sub: "fst ` set (txs new) \<subseteq> {ps, c}"
    and rs: "(case res of Some d \<Rightarrow> txs new \<noteq> [] \<and> last (txs new) = (c, Some d) 
                 | None \<Rightarrow> (\<forall>d. (c, Some d) \<notin> set (txs new)))"
    by (auto simp: opr_def op_post_def split: option.splits)
  show ?thesis
  proof (cases res)
    case None
    with rs have "\<forall>d. (c, Some d) \<notin> set (txs new)" by simp
    with sub assms(2) have "\<not> succeeded c' new" by (fastforce simp: succeeded_def)
    with None show ?thesis by simp
  next
    case (Some d)
    with rs have "txs new \<noteq> []" "last (txs new) = (c, Some d)" by simp_all
    then have "(c, Some d) \<in> set (txs new)" using last_in_set by metis
    then have "succeeded c new" by (force simp: succeeded_def)
    moreover have "c' \<noteq> c \<Longrightarrow> \<not> succeeded c' new" using sub assms(2) by (fastforce simp: succeeded_def)
    ultimately show ?thesis using Some by auto
  qed
qed

lemma opr_attempted:
  assumes "opr k ps c res new" "c' \<noteq> c"
  shows "attempted c' new = (c' = ps)"
proof -
  from assms(1) have sub: "fst ` set (txs new) \<subseteq> {ps, c}"
    and hd: "txs new \<noteq> []" "fst (hd (txs new)) = ps"
    by (auto simp: opr_def op_post_def)
  from hd have "ps \<in> fst ` set (txs new)" by (metis hd_in_set image_eqI)
  with sub assms(2) show ?thesis by (auto simp: attempted_def)
qed

lemma opr_ends_ok:
  assumes "opr k ps c res new"
  shows "ends_ok c' new = (c' = c \<and> res \<noteq> None)"
proof -
  from assms have tk: "take_op k ps c (txs new) = Some (res, [])" and ne: "txs new \<noteq> []"
    and rs: "(case res of Some d \<Rightarrow> txs new \<noteq> [] \<and> last (txs new) = (c, Some d) 
                 | None \<Rightarrow> True)"
    using opr_def op_post_def by (auto simp: opr_def op_post_def split: option.splits dest: spec[where x="[]"])
  show ?thesis
  proof (cases res)
    case None
    with tk ne have "snd (last (txs new)) = None" by (intro take_op_None_last[where n=k and ps=ps and c=c]) simp_all
    with None show ?thesis by (simp add: ends_ok_def)
  next
    case (Some d)
    with rs ne show ?thesis by (auto simp: ends_ok_def)
  qed
qed

lemma opr_take_op:
  assumes "opr k ps c res new"
  shows "take_op k ps c (txs new @ rest) = Some (res, rest)" and "take_op k ps c (txs new) = Some (res, [])"
  using assms by (auto simp: opr_def op_post_def dest: spec[where x="[]"])

lemma ends_failed_append:
  assumes "ends_failed n ps c ys"
  shows "ends_failed n ps c (xs @ ys) = True"
proof -
  from assms obtain k where k: "k < length (txs ys)" "take_op n ps c (drop k (txs ys)) = Some (None, [])"
    by (auto simp: ends_failed_def list_ex_iff)
  then have "length (txs xs) + k < length (txs (xs @ ys))" "take_op n ps c (drop (length (txs xs) + k) (txs (xs @ ys))) = Some (None, [])"
    by simp_all
  then show ?thesis unfolding ends_failed_def list_ex_iff by (metis atLeastLessThan_iff le0 set_upt)
qed

lemma ends_failed_Cons:
  "ends_failed n ps c es \<Longrightarrow> ends_failed n ps c (e # es) = True"
  using ends_failed_append[of n ps c es "[e]"] by simp

lemma opr_ends_failed:
  assumes "opr k ps c res new" "res = None"
  shows "txs post = [] \<Longrightarrow> ends_failed k ps c (new @ post) = True" and "ends_failed k ps c new = True"
proof -
  from assms have tk: "take_op k ps c (txs new) = Some (None, [])" and ne: "txs new \<noteq> []"
    by (auto simp: opr_def op_post_def dest: spec[where x="[]"])
  then have "0 < length (txs new)" "take_op k ps c (drop 0 (txs new)) = Some (None, [])" by simp_all
  then show e: "ends_failed k ps c new = True" unfolding ends_failed_def list_ex_iff
    by (metis atLeastLessThan_iff le0 set_upt)
  assume "txs post = []"
  then show "ends_failed k ps c (new @ post) = True" using e by (simp add: ends_failed_def)
qed

lemma page_select_neq:
  "ReadTx a reg n \<noteq> page_select a' p"
  "page_select a' p \<noteq> ReadTx a reg n"
  "x \<noteq> 0 \<Longrightarrow> WriteTx a (x # xs) \<noteq> page_select a' p"
  "x \<noteq> 0 \<Longrightarrow> page_select a' p \<noteq> WriteTx a (x # xs)"
  by (auto simp: page_select_def)

lemma page_select_eq:
  "(page_select a p = page_select a' p') = (a = a' \<and> (word_of_int p :: byte) = word_of_int p')"
  by (auto simp: page_select_def)

lemma run_bind_wr_op:
  assumes "0 \<le> p" "p \<le> 255" "WriteTx a pl \<noteq> page_select a p"
    and "\<And>rc n1. wr_post a p pl (Ret rc) n1 \<Longrightarrow>
           opr 4 (page_select a p) (WriteTx a pl) (if rc = 0 then Some [] else None) n1 \<Longrightarrow>
           run (f rc) (s @ n1) (\<lambda>r n2. Q r (n1 @ n2))"
  shows "run (bindE (vrm_write_block tr a p pl) f) s Q"
proof (rule run_bindE[where ?Q1.0="\<lambda>r new. wr_post a p pl r new \<and> (\<exists>rc. r = Ret rc \<and>
              op_post (page_select a p) (WriteTx a pl) (nat (RETRY_RW - 0))
                 (if rc = 0 then Some [] else None) (txs new))"])
  show "run (vrm_write_block tr a p pl) s (\<lambda>r new. wr_post a p pl r new \<and> (\<exists>rc. r = Ret rc \<and>
              op_post (page_select a p) (WriteTx a pl) (nat (RETRY_RW - 0))
                 (if rc = 0 then Some [] else None) (txs new)))"
    unfolding vrm_write_block_def
    by (rule run_conj[OF vrm_write_loop_run[OF assms(1-2)] vrm_write_loop_op[OF assms(1-3)]])
next
  fix x n1 assume "wr_post a p pl (Ret x) n1 \<and> (\<exists>rc. Ret x = Ret rc \<and>
              op_post (page_select a p) (WriteTx a pl) (nat (RETRY_RW - 0))
                 (if rc = 0 then Some [] else None) (txs n1))"
  then show "run (f x) (s @ n1) (\<lambda>r n2. Q r (n1 @ n2))"
    using assms(3) by (intro assms(4)) (auto simp: opr_def RETRY_RW_def)
next
  fix e n1 assume "wr_post a p pl (Raised e) n1 \<and> (\<exists>rc. Raised e = Ret rc \<and>
              op_post (page_select a p) (WriteTx a pl) (nat (RETRY_RW - 0))
                 (if rc = 0 then Some [] else None) (txs n1))"
  then show "Q (Raised e) n1" by simp
qed

lemma run_bind_rd_op:
  assumes "0 \<le> p" "p \<le> 255" "0 \<le> reg" "reg \<le> 255"
    and "\<And>rc d n1. rd_post a p reg n (Ret (rc, d)) n1 \<Longrightarrow>
           opr 4 (page_select a p) (ReadTx a reg n) (if rc = 0 then Some d else None) n1 \<Longrightarrow>
           run (f (rc, d)) (s @ n1) (\<lambda>r n2. Q r (n1 @ n2))"
  shows "run (bindE (vrm_read_block tr a p reg n) f) s Q"
proof (rule run_bindE[where ?Q1.0="\<lambda>r new. rd_post a p reg n r new \<and> (\<exists>rc d. r = Ret (rc, d) \<and>
              op_post (page_select a p) (ReadTx a reg n) (nat (RETRY_RW - 0))
                 (if rc = 0 then Some d else None) (txs new))"])
  show "run (vrm_read_block tr a p reg n) s (\<lambda>r new. rd_post a p reg n r new \<and> (\<exists>rc d. r = Ret (rc, d) \<and>
              op_post (page_select a p) (ReadTx a reg n) (nat (RETRY_RW - 0))
                 (if rc = 0 then Some d else None) (txs new)))"
    unfolding vrm_read_block_def
    by (rule run_conj[OF vrm_read_loop_run[OF assms(1-4)] vrm_read_loop_op[OF assms(1-4)]])
next
  fix x n1 assume h: "rd_post a p reg n (Ret x) n1 \<and> (\<exists>rc d. Ret x = Ret (rc, d) \<and>
              op_post (page_select a p) (ReadTx a reg n) (nat (RETRY_RW - 0))
                 (if rc = 0 then Some d else None) (txs n1))"
  have "run (f (fst x, snd x)) (s @ n1) (\<lambda>r n2. Q r (n1 @ n2))"
    using h by (intro assms(5)) (auto simp: opr_def RETRY_RW_def page_select_def)
  then show "run (f x) (s @ n1) (\<lambda>r n2. Q r (n1 @ n2))" by simp
next
  fix e n1 assume "rd_post a p reg n (Raised e) n1 \<and> (\<exists>rc d. Raised e = Ret (rc, d) \<and>
              op_post (page_select a p) (ReadTx a reg n) (nat (RETRY_RW - 0))
                 (if rc = 0 then Some d else None) (txs n1))"
  then show "Q (Raised e) n1" by simp
qed

lemma run_bind_scan_op:
  assumes "0 \<le> p" "p \<le> 255" "0 \<le> reg" "reg \<le> 255"
    and "\<And>rc d n1. rd_post a p reg n (Ret (rc, d)) n1 \<Longrightarrow>
           opr 2 (page_select a p) (ReadTx a reg n) (if rc = 0 then Some d else None) n1 \<Longrightarrow>
           run (f (rc, d)) (s @ n1) (\<lambda>r n2. Q r (n1 @ n2))"
  shows "run (bindE (scan_read_block tr a p reg n) f) s Q"
proof (rule run_bindE[where ?Q1.0="\<lambda>r new. rd_post a p reg n r new \<and> (\<exists>rc d. r = Ret (rc, d) \<and>
              op_post (page_select a p) (ReadTx a reg n) (nat (RETRY_SCAN - 0))
                 (if rc = 0 then Some d else None) (txs new))"])
  show "run (scan_read_block tr a p reg n) s (\<lambda>r new. rd_post a p reg n r new \<and> (\<exists>rc d. r = Ret (rc, d) \<and>
              op_post (page_select a p) (ReadTx a reg n) (nat (RETRY_SCAN - 0))
                 (if rc = 0 then Some d else None) (txs new)))"
    unfolding scan_read_block_def
    by (rule run_conj[OF scan_read_loop_run[OF assms(1-4)] scan_read_loop_op[OF assms(1-4)]])
next
  fix x n1 assume h: "rd_post a p reg n (Ret x) n1 \<and> (\<exists>rc d. Ret x = Ret (rc, d) \<and>
              op_post (page_select a p) (ReadTx a reg n) (nat (RETRY_SCAN - 0))
                 (if rc = 0 then Some d else None) (txs n1))"
  have "run (f (fst x, snd x)) (s @ n1) (\<lambda>r n2. Q r (n1 @ n2))"
    using h by (intro assms(5)) (auto simp: opr_def RETRY_SCAN_def page_select_def)
  then show "run (f x) (s @ n1) (\<lambda>r n2. Q r (n1 @ n2))" by simp
next
  fix e n1 assume "rd_post a p reg n (Raised e) n1 \<and> (\<exists>rc d. Raised e = Ret (rc, d) \<and>
              op_post (page_select a p) (ReadTx a reg n) (nat (RETRY_SCAN - 0))
                 (if rc = 0 then Some d else None) (txs n1))"
  then show "Q (Raised e) n1" by simp
qed

lemmas op_rules = run_bind_rd_op run_bind_wr_op run_bind_scan_op run_bind_print run_bind_sleep run_bind_return
   run_bind_raise run_if run_bind_if run_print run_returnE run_raiseE run_sleep

lemmas op_simps = opr_txs opr_succeeded opr_attempted opr_ends_ok opr_take_op opr_ends_failed
   ends_failed_append ends_failed_Cons page_select_neq page_select_eq

section \<open>Which stage failures end a procedure\<close>

lemma after_print_append [simp]:
  "after_print m (xs @ ys) = (if Print m \<in> set xs then after_print m xs @ ys else after_print m ys)"
  by (induction xs) auto

lemma rd_post_no_print:
  "rd_post a p reg n r new \<Longrightarrow> \<forall>k. m \<noteq> MsgRetry k \<Longrightarrow> Print m \<notin> set new"
  by (auto simp: rd_post_def)

lemma wr_post_no_print:
  "wr_post a p pl r new \<Longrightarrow> \<forall>k. m \<noteq> MsgTry k \<Longrightarrow> Print m \<notin> set new"
  by (auto simp: wr_post_def)

lemma wr_post_rc: "wr_post a p pl (Ret rc) new \<Longrightarrow> rc \<noteq> 0 \<Longrightarrow> rc = -1"
  by (auto simp: wr_post_def)

lemmas print_simps = rd_post_no_print wr_post_no_print ex_bool_eq




















section \<open>The bus scanner\<close>

lemma ranks_simps [simp]:
  "ranks [] = []"
  "ranks (xs @ ys) = ranks xs @ ranks ys"
  "ranks (Print m # es) = ranks es"
  "ranks (Sleep k # es) = ranks es"
  "ranks (Tx (ReadTx a reg n) x # es) = test_rank (ReadTx a reg n) # ranks es"
  "ranks (Tx (WriteTx a d) x # es) = ranks es"
  by (simp_all add: ranks_def)

lemma rd_post_ranks_set:
  assumes "rd_post a p reg n r new"
  shows "set (ranks new) \<subseteq> {test_rank (ReadTx a reg n)}"
proof -
  have "c = ReadTx a reg n" if "(c, x) \<in> set (txs new)" "is_read c" for c x
    using that rd_post_tx[OF assms, of c x] by (auto simp: txs_set page_select_def)
  then show ?thesis by (auto simp: ranks_def)
qed

lemma rd_post_ranks_eq:
  "rd_post a p reg n r new \<Longrightarrow>
     set (ranks new) = (if ranks new = [] then {} else {test_rank (ReadTx a reg n)})"
  using rd_post_ranks_set[of a p reg n r new] by (cases "ranks new") auto

lemma sorted_const: "set xs \<subseteq> {k} \<Longrightarrow> sorted (xs :: nat list)"
  by (induction xs) auto

lemma rd_post_ranks_sorted: "rd_post a p reg n r new \<Longrightarrow> sorted (ranks new)"
  by (rule sorted_const[OF rd_post_ranks_set])

lemma reports_simps [simp]:
  "reports [] a = (\<lambda>f. False)"
  "reports (xs @ ys) a = (\<lambda>f. reports xs a f \<or> reports ys a f)"
  "reports (e # es) a = (\<lambda>f. report_of e = Some (a, f) \<or> reports es a f)"
  by (auto simp: reports_def fun_eq_iff)

lemma rd_post_reports: "rd_post a p reg n r new \<Longrightarrow> reports new a' = (\<lambda>f. False)"
  by (auto simp: rd_post_def reports_def page_select_def fun_eq_iff)

lemma rd_post_length:
  "rd_post a p reg n (Ret (rc, d)) new \<Longrightarrow> length d = (if rc = 0 then n else 0)"
  by (auto simp: rd_post_def)

lemmas scan_simps = rd_post_length rd_post_ranks_eq rd_post_ranks_sorted rd_post_reports sorted_append
  okread_simps calls_simps test_rank_def

lemma run_probe:
  assumes "\<And>d. run g (s @ [Tx (ReadTx a 0 1) (Some d)]) (\<lambda>r n2. Q r (Tx (ReadTx a 0 1) (Some d) # n2))"
      and "Q (Ret ()) [Tx (ReadTx a 0 1) None]"
  shows "run (\<lambda>s. case read_block tr a 0 1 s of ((rc, uu), s1) \<Rightarrow> if rc = 0 then g s1 else (Ret (), s1)) s Q"
proof (cases "tr s (ReadTx a 0 1)")
  case None
  then show ?thesis
    using assms(2) by (intro runI[where r="Ret ()" and new="[Tx (ReadTx a 0 1) None]"])
       (simp_all add: read_block_def)
next
  case (Some bs)
  from assms(1)[of "fit 1 bs"] obtain r n2 where
    g: "g (s @ [Tx (ReadTx a 0 1) (Some (fit 1 bs))]) = (r, (s @ [Tx (ReadTx a 0 1) (Some (fit 1 bs))]) @ n2)"
    and q: "Q r (Tx (ReadTx a 0 1) (Some (fit 1 bs)) # n2)" by (rule runE)
  show ?thesis
    using Some g q by (intro runI[where r=r and new="Tx (ReadTx a 0 1) (Some (fit 1 bs)) # n2"])
       (simp_all add: read_block_def)
qed

lemma scan_addr_calls:
  "run (scan_addr tr a) s (\<lambda>r new. r = Ret () \<and>
     fst ` set (txs new) \<subseteq> {ReadTx a 0x00 1, page_select a 0x00, ReadTx a 0xAD 5, ReadTx a 0xAD 2,
        ReadTx a 0xBF 2, ReadTx a 0xFD 1, page_select a 0x4F, ReadTx a 0x1A 1, ReadTx a 0x32 2,
        page_select a 0x50, ReadTx a 0x82 2, page_select a 0x20, ReadTx a 0x73 2})"
  unfolding scan_addr_def scan_classify_def scan_primarion_def
  by (rule run_rules run_probe | (simp only: prod.case) | (simp add: scan_simps; fail))+

lemma scan_addr_order:
  "run (scan_addr tr a) s (\<lambda>r new.
     sorted (ranks new) \<and>
     (\<forall>f g. reports new a f \<and> reports new a g \<longrightarrow> f = g) \<and>
     (\<forall>a' f. reports new a' f \<longrightarrow> a' = a) \<and>
     (\<forall>f. reports new a f \<and> f \<noteq> PXE1610C \<longrightarrow> report_of (last new) = Some (a, f)) \<and>
     (ok_read 0x00 1 new = None \<longrightarrow> txs new = [(ReadTx a 0x00 1, None)]))"
  unfolding scan_addr_def scan_classify_def scan_primarion_def
  by (rule run_rules run_probe | (simp only: prod.case) | (simp add: scan_simps; fail))+

lemma scan_addr_signatures:
  "run (scan_addr tr a) s (\<lambda>r new.
     (reports new a ISL69127 \<longleftrightarrow>
        (\<exists>d. ok_read 0xAD 5 new = Some d \<and> d ! 4 = 0x49 \<and> d ! 3 = 0xD2 \<and> d ! 2 = 0x23 \<and> d ! 1 = 0x00)) \<and>
     (reports new a TPS5367x \<longleftrightarrow>
        (\<exists>d. ok_read 0xAD 2 new = Some d \<and> d ! 0 = 0x01 \<and> (d ! 1 = 0x79 \<or> d ! 1 = 0x78))) \<and>
     (reports new a MP2955A \<longleftrightarrow>
        (\<exists>d. ok_read 0xBF 2 new = Some d \<and> d ! 0 = 0x55 \<and> d ! 1 = 0x25)) \<and>
     (reports new a PXE1610C \<longleftrightarrow>
        (\<exists>d e. ok_read 0xFD 1 new = Some d \<and> d ! 0 = 0xB3 \<and> ok_read 0x1A 1 new = Some e \<and> e ! 0 = 0x00)))"
  unfolding scan_addr_def scan_classify_def scan_primarion_def
  by (rule run_rules run_probe | (simp only: prod.case) | (simp add: scan_simps; fail))+

lemma scan_pmbus_run:
  "run (scan_pmbus tr a e) s (\<lambda>r new. r = Ret 0 \<and>
      fst ` set (txs new) \<subseteq> {c. is_read c \<or> (\<exists>a' p. c = WriteTx a' [0x00, p] \<and> p \<in> {0x00, 0x4F, 0x50, 0x20})} \<and>
      (\<forall>a' f. reports new a' f \<longrightarrow> a \<le> a') \<and>
      (\<forall>a' f g. reports new a' f \<and> reports new a' g \<longrightarrow> f = g))"
proof (induction tr a e s rule: scan_pmbus.induct)
  case (1 tr a e s)
  show ?case
  proof (cases "a \<le> e")
    case False
    then have "scan_pmbus tr a e s = (Ret 0, s @ [])" by (subst scan_pmbus.simps) simp
    then show ?thesis by (intro runI[where r="Ret 0" and new="[]"]) simp_all
  next
    case True
    from run_conj[OF scan_addr_calls[of tr a s] scan_addr_order[of tr a s]]
    obtain r1 n1 where a1: "scan_addr tr a s = (r1, s @ n1)" and r1: "r1 = Ret ()"
      and c1: "fst ` set (txs n1) \<subseteq> {ReadTx a 0x00 1, page_select a 0x00, ReadTx a 0xAD 5, ReadTx a 0xAD 2,
        ReadTx a 0xBF 2, ReadTx a 0xFD 1, page_select a 0x4F, ReadTx a 0x1A 1, ReadTx a 0x32 2,
        page_select a 0x50, ReadTx a 0x82 2, page_select a 0x20, ReadTx a 0x73 2}"
      and u1: "\<forall>f g. reports n1 a f \<and> reports n1 a g \<longrightarrow> f = g"
      and o1: "\<forall>a' f. reports n1 a' f \<longrightarrow> a' = a"
      by (rule runE) blast
    have e1: "(Ret (), s @ n1) = scan_addr tr a s" using a1 r1 by simp
    have "run (scan_pmbus tr (a + 1) e) (s @ n1) (\<lambda>r new. r = Ret 0 \<and>
      fst ` set (txs new) \<subseteq> {c. is_read c \<or> (\<exists>a' p. c = WriteTx a' [0x00, p] \<and> p \<in> {0x00, 0x4F, 0x50, 0x20})} \<and>
      (\<forall>a' f. reports new a' f \<longrightarrow> a + 1 \<le> a') \<and>
      (\<forall>a' f g. reports new a' f \<and> reports new a' g \<longrightarrow> f = g))"
      by (rule "1.IH"[OF True e1 refl])
    then obtain r2 n2 where a2: "scan_pmbus tr (a + 1) e (s @ n1) = (r2, (s @ n1) @ n2)" and r2: "r2 = Ret 0"
      and c2: "fst ` set (txs n2) \<subseteq> {c. is_read c \<or> (\<exists>a' p. c = WriteTx a' [0x00, p] \<and> p \<in> {0x00, 0x4F, 0x50, 0x20})}"
      and o2: "\<forall>a' f. reports n2 a' f \<longrightarrow> a + 1 \<le> a'"
      and u2: "\<forall>a' f g. reports n2 a' f \<and> reports n2 a' g \<longrightarrow> f = g"
      by (rule runE) blast
    have run: "scan_pmbus tr a e s = (Ret 0, s @ (n1 @ n2))"
      using True a1 r1 a2 r2 by (subst scan_pmbus.simps) simp
    have c: "fst ` set (txs (n1 @ n2)) \<subseteq> {c. is_read c \<or> (\<exists>a' p. c = WriteTx a' [0x00, p] \<and> p \<in> {0x00, 0x4F, 0x50, 0x20})}"
      using c1 c2 by (auto simp: page_select_def)
    have o: "\<forall>a' f. reports (n1 @ n2) a' f \<longrightarrow> a \<le> a'"
      using o1 o2 by fastforce
    have u: "\<forall>a' f g. reports (n1 @ n2) a' f \<and> reports (n1 @ n2) a' g \<longrightarrow> f = g"
    proof (intro allI impI)
      fix a' f g assume h: "reports (n1 @ n2) a' f \<and> reports (n1 @ n2) a' g"
      show "f = g"
      proof (cases "a' = a")
        case True
        with o2 have "\<not> reports n2 a' f" "\<not> reports n2 a' g" by fastforce+
        with h True u1 show ?thesis by simp
      next
        case False
        with o1 have "\<not> reports n1 a' f" "\<not> reports n1 a' g" by blast+
        with h u2 show ?thesis by auto
      qed
    qed
    from run c o u show ?thesis by (intro runI[where r="Ret 0" and new="n1 @ n2"]) simp_all
  qed
qed

lemma replicate_numeral: "replicate (numeral k) x = x # replicate (pred_numeral k) x"
  by (simp add: numeral_eq_Suc)

lemma scan_pmbus_run_tps:
  "scan_addr (reg_dev (tps_regs [0x80, 0x00])) 0x70 [] =
   (Ret (),
  [Print (MsgScanning 112), Tx (ReadTx 112 0 1) (Some [0]),
   Print (MsgFoundDevice 112), Tx (WriteTx 112 [0, 0]) (Some []),
   Tx (ReadTx 112 173 5) (Some [1, 121, 0, 0, 0]),
   Tx (WriteTx 112 [0, 0]) (Some []), Tx (ReadTx 112 173 2) (Some [1, 121]),
   Print (MsgProbablyTPS53679 112)])"
  by (simp add: eval_simps proc_simps scan_addr_def scan_classify_def scan_primarion_def replicate_numeral)

lemma scan_pmbus_run_pxe:
  "scan_pmbus (reg_dev (pxe_regs [0x80, 0x00])) 0x58 0x58 [] =
   (Ret 0,
  [Print (MsgScanning 88), Tx (ReadTx 88 0 1) (Some [0]),
   Print (MsgFoundDevice 88), Tx (WriteTx 88 [0, 0]) (Some []),
   Tx (ReadTx 88 173 5) (Some [0, 0, 0, 0, 0]),
   Tx (WriteTx 88 [0, 0]) (Some []), Tx (ReadTx 88 173 2) (Some [0, 0]),
   Tx (WriteTx 88 [0, 0]) (Some []), Tx (ReadTx 88 191 2) (Some [0, 0]),
   Tx (WriteTx 88 [0, 0]) (Some []), Tx (ReadTx 88 253 1) (Some [179]),
   Tx (WriteTx 88 [0, 79]) (Some []), Tx (ReadTx 88 26 1) (Some [0]),
   Print (MsgPrimarion 88), Tx (WriteTx 88 [0, 79]) (Some []),
   Tx (ReadTx 88 50 2) (Some [21, 4]), Print (MsgPxeFoundAt 88),
   Tx (WriteTx 88 [0, 80]) (Some []), Tx (ReadTx 88 130 2) (Some [192, 5]),
   Print (MsgRemaining 23), Tx (WriteTx 88 [0, 32]) (Some []),
   Tx (ReadTx 88 115 2) (Some [128, 0]), Print (MsgIccMaxScan 128)])"
  by (simp add: eval_simps proc_simps scan_pmbus.simps scan_addr_def scan_classify_def scan_primarion_def replicate_numeral)

lemmas spec_simps = spec_scan_def spec_order_def spec_signature_def

lemma scan_addr_refines:
  "run (scan_addr tr a) s (\<lambda>r new.
     (case spec_scan a (txs new) of
        None \<Rightarrow> False
      | Some l \<Rightarrow>
         (Print (MsgFoundDevice a) \<in> set new \<longleftrightarrow> l \<noteq> []) \<and>
         (reports new a ISL69127 \<longleftrightarrow> l = [(ISL69127, 1)]) \<and>
         (reports new a TPS5367x \<longleftrightarrow> l = [(ISL69127, 0), (TPS5367x, 1)]) \<and>
         (reports new a MP2955A \<longleftrightarrow> l = [(ISL69127, 0), (TPS5367x, 0), (MP2955A, 1)]) \<and>
         (Print (MsgPrimarion a) \<in> set new \<longleftrightarrow>
            l = [(ISL69127, 0), (TPS5367x, 0), (MP2955A, 0), (PXE1610C, 2)] \<or>
            l = [(ISL69127, 0), (TPS5367x, 0), (MP2955A, 0), (PXE1610C, 3)]) \<and>
         (Print (MsgPxeFoundAt a) \<in> set new \<longleftrightarrow>
            l = [(ISL69127, 0), (TPS5367x, 0), (MP2955A, 0), (PXE1610C, 3)])))"
  unfolding scan_addr_def scan_classify_def scan_primarion_def
  by (rule op_rules run_probe | (simp only: prod.case) | (simp add: scan_simps op_simps spec_simps print_simps cong: conj_cong; fail))+

lemma scan_pmbus_fold:
  "scan_pmbus tr a e s = (Ret 0, foldl (\<lambda>s a. snd (scan_addr tr a s)) s [a..e])"
proof (induction tr a e s rule: scan_pmbus.induct)
  case (1 tr a e s)
  show ?case
  proof (cases "a \<le> e")
    case False
    then show ?thesis by (subst scan_pmbus.simps) simp
  next
    case True
    from scan_addr_calls[of tr a s] obtain n1 where a1: "scan_addr tr a s = (Ret (), s @ n1)"
      by (rule runE) blast
    have e1: "(Ret (), s @ n1) = scan_addr tr a s" using a1 by simp
    have "scan_pmbus tr (a + 1) e (s @ n1) = (Ret 0, foldl (\<lambda>s a. snd (scan_addr tr a s)) (s @ n1) [a + 1..e])"
      by (rule "1.IH"[OF True e1 refl])
    moreover have "[a..e] = a # [a + 1..e]" using True by (simp add: upto_rec1)
    ultimately show ?thesis using True a1 by (subst scan_pmbus.simps) simp
  qed
qed

text \<open>
  C5. For every address range and every transport behaviour the scan returns 0 and
  every transaction it issues is a read or a page select \<^verbatim>\<open>[0x00, page]\<close> (with page
  0x00, 0x4F, 0x50 or 0x20): no register other than PAGE is written, and the PXE1610C
  remaining-attempts and ICC_MAX values are obtained by reads.
\<close>

theorem scan_writes_only_page_selects:
  "case scan_pmbus tr start_addr end_addr s of (r, s') \<Rightarrow>
     r = Ret 0 \<and> take (length s) s' = s \<and>
     (\<forall>c x. Tx c x \<in> set (appended s s') \<longrightarrow>
        is_read c \<or> (\<exists>a p. c = WriteTx a [0x00, p] \<and> p \<in> {0x00, 0x4F, 0x50, 0x20}))"
  using run_caseD[OF scan_pmbus_run[of tr start_addr end_addr s]]
  by (auto simp: txs_set[symmetric] split: prod.splits)


theorem scan_writes_only_page_selects_witness:
  "Tx (WriteTx 0x58 [0x00, 0x50]) (Some []) \<in> set (appended [] (snd (scan_pmbus (reg_dev (pxe_regs [0x80, 0x00])) 0x58 0x58 []))) \<and>
   \<not> is_read (WriteTx 0x58 [0x00, 0x50]) \<and>
   (\<exists>a p. WriteTx 0x58 [0x00, 0x50] = WriteTx a [0x00, p] \<and> p \<in> {0x00, 0x4F, 0x50, 0x20 :: byte})"
proof -
  have h: "Tx (WriteTx 0x58 [0x00, 0x50]) (Some []) \<in> set (appended [] (snd (scan_pmbus (reg_dev (pxe_regs [0x80, 0x00])) 0x58 0x58 [])))"
    unfolding scan_pmbus_run_pxe by (simp add: appended_def)
  have "is_read (WriteTx 0x58 [0x00, 0x50]) \<or>
        (\<exists>a p. WriteTx 0x58 [0x00, 0x50] = WriteTx a [0x00, p] \<and> p \<in> {0x00, 0x4F, 0x50, 0x20 :: byte})"
    using scan_writes_only_page_selects[where tr="reg_dev (pxe_regs [0x80, 0x00])" and start_addr="0x58" and end_addr="0x58" and s="[]"] h
    by (auto split: prod.splits)
  with h show ?thesis by simp
qed


text \<open>
  C8. For every address \<open>a\<close> the transactions of the scan loop body are exactly those
  of sections 4.2 and 4.4 (\<open>spec_scan\<close>): the presence probe; when it succeeded, the
  signature checks of ISL69127, then TPS53679/78, then MP2955A, then PXE1610C/Primarion,
  each check a paged read with two attempts, a check made only if the checks of its
  family before it matched, a family tested only if no family before it matched
  completely; nothing after the first complete match, except the two informational reads
  of a PXE1610C. The families tested and the number of their checks that matched decide
  the report: ISL69127, TPS53679/78 and MP2955A are reported exactly when their check
  matched, \<^verbatim>\<open>Primarion family controller found\<close> exactly when the first two checks of
  PXE1610C matched, \<^verbatim>\<open>PXE1610C found\<close> exactly when all three did.

  Also: the ranks of the reads never decrease; when the probe fails nothing else is read;
  at most one family is reported, and only for address \<open>a\<close>; a report of ISL69127,
  TPS53679/78 or MP2955A is the last thing done for that address; a family is reported
  exactly when its signature was read. The whole scan is the loop body run once for each
  address of the range, in ascending order, and no address gets two families.
\<close>

theorem scan_priority_order:
  "(case scan_addr tr a s of (r, s') \<Rightarrow>
      r = Ret () \<and>
      sorted (map test_rank (filter is_read (map fst (txs (appended s s'))))) \<and>
      (\<forall>f g. reports (appended s s') a f \<and> reports (appended s s') a g \<longrightarrow> f = g) \<and>
      (\<forall>a' f. reports (appended s s') a' f \<longrightarrow> a' = a) \<and>
      (\<forall>f. reports (appended s s') a f \<and> f \<noteq> PXE1610C \<longrightarrow> report_of (last (appended s s')) = Some (a, f)) \<and>
      (ok_read 0x00 1 (appended s s') = None \<longrightarrow> txs (appended s s') = [(ReadTx a 0x00 1, None)]) \<and>
      (reports (appended s s') a ISL69127 \<longleftrightarrow>
        (\<exists>d. ok_read 0xAD 5 (appended s s') = Some d \<and> d ! 4 = 0x49 \<and> d ! 3 = 0xD2 \<and> d ! 2 = 0x23 \<and> d ! 1 = 0x00)) \<and>
      (reports (appended s s') a TPS5367x \<longleftrightarrow>
        (\<exists>d. ok_read 0xAD 2 (appended s s') = Some d \<and> d ! 0 = 0x01 \<and> (d ! 1 = 0x79 \<or> d ! 1 = 0x78))) \<and>
      (reports (appended s s') a MP2955A \<longleftrightarrow>
        (\<exists>d. ok_read 0xBF 2 (appended s s') = Some d \<and> d ! 0 = 0x55 \<and> d ! 1 = 0x25)) \<and>
      (reports (appended s s') a PXE1610C \<longleftrightarrow>
        (\<exists>d e. ok_read 0xFD 1 (appended s s') = Some d \<and> d ! 0 = 0xB3 \<and> ok_read 0x1A 1 (appended s s') = Some e \<and> e ! 0 = 0x00)) \<and>
      (case spec_scan a (txs (appended s s')) of
        None \<Rightarrow> False
      | Some l \<Rightarrow>
         (Print (MsgFoundDevice a) \<in> set (appended s s') \<longleftrightarrow> l \<noteq> []) \<and>
         (reports (appended s s') a ISL69127 \<longleftrightarrow> l = [(ISL69127, 1)]) \<and>
         (reports (appended s s') a TPS5367x \<longleftrightarrow> l = [(ISL69127, 0), (TPS5367x, 1)]) \<and>
         (reports (appended s s') a MP2955A \<longleftrightarrow> l = [(ISL69127, 0), (TPS5367x, 0), (MP2955A, 1)]) \<and>
         (Print (MsgPrimarion a) \<in> set (appended s s') \<longleftrightarrow>
            l = [(ISL69127, 0), (TPS5367x, 0), (MP2955A, 0), (PXE1610C, 2)] \<or>
            l = [(ISL69127, 0), (TPS5367x, 0), (MP2955A, 0), (PXE1610C, 3)]) \<and>
         (Print (MsgPxeFoundAt a) \<in> set (appended s s') \<longleftrightarrow>
            l = [(ISL69127, 0), (TPS5367x, 0), (MP2955A, 0), (PXE1610C, 3)]))) \<and>
   (case scan_pmbus tr start_addr end_addr s of (r, s') \<Rightarrow>
      (\<forall>a f g. reports (appended s s') a f \<and> reports (appended s s') a g \<longrightarrow> f = g)) \<and>
   scan_pmbus tr start_addr end_addr s =
      (Ret 0, foldl (\<lambda>s a. snd (scan_addr tr a s)) s [start_addr..end_addr])"
proof (intro conjI)
  show "(case scan_addr tr a s of (r, s') \<Rightarrow>
      r = Ret () \<and>
      sorted (map test_rank (filter is_read (map fst (txs (appended s s'))))) \<and>
      (\<forall>f g. reports (appended s s') a f \<and> reports (appended s s') a g \<longrightarrow> f = g) \<and>
      (\<forall>a' f. reports (appended s s') a' f \<longrightarrow> a' = a) \<and>
      (\<forall>f. reports (appended s s') a f \<and> f \<noteq> PXE1610C \<longrightarrow> report_of (last (appended s s')) = Some (a, f)) \<and>
      (ok_read 0x00 1 (appended s s') = None \<longrightarrow> txs (appended s s') = [(ReadTx a 0x00 1, None)]) \<and>
      (reports (appended s s') a ISL69127 \<longleftrightarrow>
        (\<exists>d. ok_read 0xAD 5 (appended s s') = Some d \<and> d ! 4 = 0x49 \<and> d ! 3 = 0xD2 \<and> d ! 2 = 0x23 \<and> d ! 1 = 0x00)) \<and>
      (reports (appended s s') a TPS5367x \<longleftrightarrow>
        (\<exists>d. ok_read 0xAD 2 (appended s s') = Some d \<and> d ! 0 = 0x01 \<and> (d ! 1 = 0x79 \<or> d ! 1 = 0x78))) \<and>
      (reports (appended s s') a MP2955A \<longleftrightarrow>
        (\<exists>d. ok_read 0xBF 2 (appended s s') = Some d \<and> d ! 0 = 0x55 \<and> d ! 1 = 0x25)) \<and>
      (reports (appended s s') a PXE1610C \<longleftrightarrow>
        (\<exists>d e. ok_read 0xFD 1 (appended s s') = Some d \<and> d ! 0 = 0xB3 \<and> ok_read 0x1A 1 (appended s s') = Some e \<and> e ! 0 = 0x00)) \<and>
      (case spec_scan a (txs (appended s s')) of
        None \<Rightarrow> False
      | Some l \<Rightarrow>
         (Print (MsgFoundDevice a) \<in> set (appended s s') \<longleftrightarrow> l \<noteq> []) \<and>
         (reports (appended s s') a ISL69127 \<longleftrightarrow> l = [(ISL69127, 1)]) \<and>
         (reports (appended s s') a TPS5367x \<longleftrightarrow> l = [(ISL69127, 0), (TPS5367x, 1)]) \<and>
         (reports (appended s s') a MP2955A \<longleftrightarrow> l = [(ISL69127, 0), (TPS5367x, 0), (MP2955A, 1)]) \<and>
         (Print (MsgPrimarion a) \<in> set (appended s s') \<longleftrightarrow>
            l = [(ISL69127, 0), (TPS5367x, 0), (MP2955A, 0), (PXE1610C, 2)] \<or>
            l = [(ISL69127, 0), (TPS5367x, 0), (MP2955A, 0), (PXE1610C, 3)]) \<and>
         (Print (MsgPxeFoundAt a) \<in> set (appended s s') \<longleftrightarrow>
            l = [(ISL69127, 0), (TPS5367x, 0), (MP2955A, 0), (PXE1610C, 3)])))"
    using run_caseD[OF run_conj[OF scan_addr_calls[of tr a s] run_conj[OF scan_addr_order[of tr a s]
       run_conj[OF scan_addr_signatures[of tr a s] scan_addr_refines[of tr a s]]]]]
    by (simp add: ranks_def split: prod.splits)
  show "(case scan_pmbus tr start_addr end_addr s of (r, s') \<Rightarrow>
      (\<forall>a f g. reports (appended s s') a f \<and> reports (appended s s') a g \<longrightarrow> f = g))"
    using run_caseD[OF scan_pmbus_run[of tr start_addr end_addr s]]
    by (auto split: prod.splits)
  show "scan_pmbus tr start_addr end_addr s =
      (Ret 0, foldl (\<lambda>s a. snd (scan_addr tr a s)) s [start_addr..end_addr])"
    by (rule scan_pmbus_fold)
qed


theorem scan_priority_order_witness:
  "reports (appended [] (snd (scan_addr (reg_dev (tps_regs [0x80, 0x00])) 0x70 []))) 0x70 TPS5367x \<and>
   TPS5367x \<noteq> PXE1610C \<and>
   report_of (last (appended [] (snd (scan_addr (reg_dev (tps_regs [0x80, 0x00])) 0x70 [])))) = Some (0x70, TPS5367x) \<and>
   \<not> reports (appended [] (snd (scan_addr (reg_dev (tps_regs [0x80, 0x00])) 0x70 []))) 0x70 ISL69127 \<and>
   spec_scan 0x70 (txs (appended [] (snd (scan_addr (reg_dev (tps_regs [0x80, 0x00])) 0x70 [])))) =
     Some [(ISL69127, 0), (TPS5367x, 1)]"
proof -
  have h: "reports (appended [] (snd (scan_addr (reg_dev (tps_regs [0x80, 0x00])) 0x70 []))) 0x70 TPS5367x" "TPS5367x \<noteq> PXE1610C"
    unfolding scan_pmbus_run_tps by (simp_all add: appended_def)
  note t = scan_priority_order[where tr="reg_dev (tps_regs [0x80, 0x00])" and a="0x70" and s="[]", THEN conjunct1]
  from t
  have "(\<forall>f g. reports (appended [] (snd (scan_addr (reg_dev (tps_regs [0x80, 0x00])) 0x70 []))) 0x70 f \<and>
               reports (appended [] (snd (scan_addr (reg_dev (tps_regs [0x80, 0x00])) 0x70 []))) 0x70 g \<longrightarrow> f = g) \<and>
        (\<forall>f. reports (appended [] (snd (scan_addr (reg_dev (tps_regs [0x80, 0x00])) 0x70 []))) 0x70 f \<and> f \<noteq> PXE1610C \<longrightarrow>
               report_of (last (appended [] (snd (scan_addr (reg_dev (tps_regs [0x80, 0x00])) 0x70 [])))) = Some (0x70, f))"
    by (simp split: prod.splits)
  moreover
  note c = t[unfolded case_prod_beta, THEN conjunct2, THEN conjunct2, THEN conjunct2, THEN conjunct2,
     THEN conjunct2, THEN conjunct2, THEN conjunct2, THEN conjunct2, THEN conjunct2, THEN conjunct2]
  from c h(1)
  have "spec_scan 0x70 (txs (appended [] (snd (scan_addr (reg_dev (tps_regs [0x80, 0x00])) 0x70 [])))) =
     Some [(ISL69127, 0), (TPS5367x, 1)]"
    by (auto split: option.splits)
  ultimately show ?thesis using h by blast
qed


section \<open>Identification of the PXE1610C\<close>

text \<open>What holds of the identification for every transport behaviour: the procedure
  announces the chip exactly when the three reads returned 0xB3, 0x00 and 0x15 0x04;
  otherwise it returns -1 or raises ValueError, having issued nothing but the page
  selects and reads of the identification; and it raises exactly when the first read
  (page 0x00, register 0xFD) did not succeed.\<close>

lemma pxe_identification:
  "run (pxe1610_set_icc_max tr a) s (\<lambda>r new.
     (Print MsgPxeFound \<in> set new \<longleftrightarrow>
        (\<exists>d1 d2 d3. ok_read 0xFD 1 new = Some d1 \<and> d1 ! 0 = 0xB3 \<and>
                    ok_read 0x1A 1 new = Some d2 \<and> d2 ! 0 = 0x00 \<and>
                    ok_read 0x32 2 new = Some d3 \<and> d3 ! 0 = 0x15 \<and> d3 ! 1 = 0x04)) \<and>
     (Print MsgPxeFound \<notin> set new \<longrightarrow>
        (r = Ret (-1) \<or> r = Raised ValueError) \<and>
        fst ` set (txs new) \<subseteq> {page_select a 0x00, ReadTx a 0xFD 1, page_select a 0x4F,
                                  ReadTx a 0x1A 1, ReadTx a 0x32 2}) \<and>
     (r = Raised ValueError \<longleftrightarrow> ok_read 0xFD 1 new = None))"
  unfolding pxe1610_set_icc_max_def pxe1610_modify_def pxe1610_commit_def
  by (rule run_rules | (simp add: print_simps okread_simps calls_simps; fail)
      | (intro conjI impI allI) | clarsimp simp: print_simps okread_simps)+

text \<open>
  C4, at an input where the code departs from it. When every transaction of the first
  identification read fails (no device answers at the address), \<^verbatim>\<open>vrm_read_block\<close>
  returns \<open>-1\<close> and the print of line 91 raises ValueError: the procedure does not
  end with the negative result \<open>-1\<close> that the next lines would give, the exception
  leaves \<^verbatim>\<open>main\<close>.
\<close>

theorem pxe_failed_first_read_raises:
  "pxe1610_set_icc_max dead_bus 0x58 [] =
   (Raised ValueError,
  [Tx (WriteTx 88 [0, 0]) None, Print (MsgRetry 1),
   Tx (WriteTx 88 [0, 0]) None, Print (MsgRetry 2),
   Tx (WriteTx 88 [0, 0]) None, Print (MsgRetry 3),
   Tx (WriteTx 88 [0, 0]) None])"
  by (simp add: eval_simps proc_simps)


section \<open>Two addresses on the command line\<close>

lemma mp_returns:
  "run (mp2955a_set_icc_max tr a) s (\<lambda>r new. r = Ret 0 \<or> r = Ret (-1))"
  unfolding mp2955a_set_icc_max_def
  by (rule run_rules | (simp; fail) | (intro conjI impI allI) | clarsimp)+

lemma tps_returns:
  "run (tps53679_set_icc_max tr a) s (\<lambda>r new. r = Ret 0 \<or> r = Ret (-1))"
  unfolding tps53679_set_icc_max_def
  by (rule run_rules | (simp; fail) | (intro conjI impI allI) | clarsimp)+

text \<open>With MP2955A and TPS53679 the second address is always processed, from the trace
  the first run left.\<close>

lemma main_family_second_runs:
  "snd (main_family tr ''-MP2955A'' a1 (Some a2) s)
     = snd (mp2955a_set_icc_max tr a2 (snd (mp2955a_set_icc_max tr a1 s))) \<and>
   snd (main_family tr ''-TPS53679'' a1 (Some a2) s)
     = snd (tps53679_set_icc_max tr a2 (snd (tps53679_set_icc_max tr a1 s))) \<and>
   snd (main_family tr ''-TPS53678'' a1 (Some a2) s)
     = snd (tps53679_set_icc_max tr a2 (snd (tps53679_set_icc_max tr a1 s)))"
proof -
  have m: "\<exists>rc. fst (mp2955a_set_icc_max tr a s) = Ret rc" for a s
    using run_caseD[OF mp_returns[of tr a s]] by (auto split: prod.splits)
  have t: "\<exists>rc. fst (tps53679_set_icc_max tr a s) = Ret rc" for a s
    using run_caseD[OF tps_returns[of tr a s]] by (auto split: prod.splits)
  show ?thesis
    using m[of a1 s] m[of a2 "snd (mp2955a_set_icc_max tr a1 s)"]
          t[of a1 s] t[of a2 "snd (tps53679_set_icc_max tr a1 s)"]
    by (auto simp: main_family_def bindE_def returnE_def split: prod.splits res.splits)
qed

text \<open>
  C10, at an input where the code departs from it. With \<^verbatim>\<open>-PXE1610C 58 5C\<close> and no
  device answering at 0x58, the ValueError of line 91 raised in the first procedure is
  not caught: the run ends after the four failed page selects at 0x58, and no
  transaction is ever addressed to 0x5C.
\<close>

theorem main_second_address_not_run:
  "main_family dead_bus ''-PXE1610C'' 0x58 (Some 0x5C) [] =
   (Raised ValueError,
  [Tx (WriteTx 88 [0, 0]) None, Print (MsgRetry 1),
   Tx (WriteTx 88 [0, 0]) None, Print (MsgRetry 2),
   Tx (WriteTx 88 [0, 0]) None, Print (MsgRetry 3),
   Tx (WriteTx 88 [0, 0]) None])"
  by (simp add: eval_simps proc_simps main_family_def)


section \<open>Decoding of the remaining-attempts counter\<close>

lemma and_or_mask_int: "(((x::int) AND m) OR y) AND m = (x OR y) AND m"
  by (simp add: bit_eq_iff bit_and_iff bit_or_iff) blast

text \<open>
  C9. For every 2-byte reply \<open>[byte0, byte1]\<close> of the remaining-attempts counter, the
  value the program decodes equals \<open>((byte1 << 2) | (byte0 >> 6)) & 0xFF\<close>, computed on
  unbounded integers.
\<close>

theorem remain_of_formula:
  "remain_of [byte0, byte1] = ((push_bit 2 (uint byte1)) OR (drop_bit 6 (uint byte0))) AND 0xFF"
  by (simp add: remain_of_def and_or_mask_int)


end
